theory Spec2Isabelle
  imports Main "HOL-Library.Multiset"
begin

section \<open>runtime/basicLock.hpp\<close>

text \<open>
  A \<open>BasicLock\<close> holds one field, the displaced header; a \<open>BasicObjectLock\<close> embeds a
  \<open>BasicLock\<close> and holds the locked object. \<open>markOop\<close> and \<open>oop\<close> are pointer types of
  the VM; the records are polymorphic in their representation (\<open>'h\<close>, \<open>'o\<close>).
\<close>

record 'h BasicLock =
  f_displaced_header :: 'h

definition displaced_header :: "'h BasicLock \<Rightarrow> 'h" where
  "displaced_header l = f_displaced_header l"

definition set_displaced_header :: "'h \<Rightarrow> 'h BasicLock \<Rightarrow> 'h BasicLock" where
  "set_displaced_header header l = l\<lparr>f_displaced_header := header\<rparr>"

record ('h, 'o) BasicObjectLock =
  f_lock :: "'h BasicLock"
  f_obj :: 'o

definition obj :: "('h, 'o) BasicObjectLock \<Rightarrow> 'o" where
  "obj b = f_obj b"

definition set_obj :: "'o \<Rightarrow> ('h, 'o) BasicObjectLock \<Rightarrow> ('h, 'o) BasicObjectLock" where
  "set_obj ob b = b\<lparr>f_obj := ob\<rparr>"

definition lock :: "('h, 'o) BasicObjectLock \<Rightarrow> 'h BasicLock" where
  "lock b = f_lock b"


section \<open>gc/shared/parallelCleaning.cpp\<close>

subsection \<open>The VM around one cleaning pass\<close>

text \<open>A compiled method is known by its address.\<close>

type_synonym CompiledMethod = nat

text \<open>A loaded class is an instance class or another kind of class (an array class).\<close>

datatype Klass = InstanceKlass nat | ArrayKlass nat

fun is_instance_klass :: "Klass \<Rightarrow> bool" where
  "is_instance_klass (InstanceKlass _) = True"
| "is_instance_klass (ArrayKlass _) = False"

text \<open>
  What the file reads from the rest of the VM and does not define itself: the build macro
  \<open>INCLUDE_JVMCI\<close>, the flag \<open>EnableJVMCI\<close>, the answer of \<open>StringDedup::is_enabled()\<close>, the
  constant \<open>MaxClaimNmethods\<close> (an \<open>int\<close> of parallelCleaning.hpp), the alive compiled methods
  in the order in which \<open>CompiledMethodIterator(only_alive)\<close> walks the code cache, and the
  loaded classes in the order of the class iterator. None of them changes during a pass.
  \<open>method_NULL_at_end\<close> says how the iterator behaves at the end of the code cache (below).
\<close>

record vm =
  INCLUDE_JVMCI :: bool
  EnableJVMCI :: bool
  StringDedup_is_enabled :: bool
  MaxClaimNmethods :: int
  method_NULL_at_end :: bool
  alive_nmethods :: "CompiledMethod list"
  loaded_klasses :: "Klass list"

text \<open>
  Modelled from the spec: \<open>CompiledMethodIterator\<close> (code/codeCache.hpp is not among the
  sources). The registry exposes a "first alive unit" lookup and a "next alive unit after X"
  relation. The iterator holds the current method (\<open>method()\<close>, \<open>None\<close> for \<open>NULL\<close>);
  \<open>next()\<close> moves to the next alive method and answers whether there is one. An iterator
  built without a start begins before the first alive method. The spec does not say what
  \<open>method()\<close> is once \<open>next()\<close> has failed: \<open>NULL\<close> (the iterator has run off the end) when
  \<open>method_NULL_at_end\<close> holds, and otherwise still the last method reached. Everything proved
  below holds in both cases.
\<close>

fun next_alive :: "CompiledMethod list \<Rightarrow> CompiledMethod \<Rightarrow> CompiledMethod option" where
  "next_alive [] x = None"
| "next_alive (y # ys) x =
     (if y = x then (case ys of [] \<Rightarrow> None | z # _ \<Rightarrow> Some z) else next_alive ys x)"

type_synonym CompiledMethodIterator = "CompiledMethod option"

definition first_alive :: "CompiledMethod list \<Rightarrow> CompiledMethod option" where
  "first_alive A = (case A of [] \<Rightarrow> None | m # _ \<Rightarrow> Some m)"

definition iterator_next :: "CompiledMethod list \<Rightarrow> CompiledMethodIterator \<Rightarrow> CompiledMethodIterator" where
  "iterator_next A it = (case it of None \<Rightarrow> first_alive A | Some c \<Rightarrow> next_alive A c)"

definition iterator_at_end :: "vm \<Rightarrow> CompiledMethodIterator \<Rightarrow> CompiledMethodIterator" where
  "iterator_at_end vm it = (if method_NULL_at_end vm then None else it)"

text \<open>
  \<open>Atomic::cmpxchg(exchange_value, dest, compare_value)\<close>: the new content of \<open>dest\<close> and
  the value returned (the old content).
\<close>

definition cmpxchg :: "'a \<Rightarrow> 'a \<Rightarrow> 'a \<Rightarrow> 'a \<times> 'a" where
  "cmpxchg exchange_value dest compare_value =
     (if dest = compare_value then exchange_value else dest, dest)"

subsection \<open>State of a pass\<close>

text \<open>
  Where a worker stands inside \<open>ParallelCleaningTask::work\<close>. One step of a worker is one
  access to shared state together with the thread-local code around it:

  \<^item> \<open>PC_jvmci_work\<close>: \<open>JVMCICleaningTask::work\<close> up to the test of \<open>_cleaning_claimed\<close> in
    \<open>claim_cleaning_task\<close> (the \<open>&&\<close> of \<open>work\<close> calls it only if unloading occurred and
    \<open>EnableJVMCI\<close> is set);
  \<^item> \<open>PC_jvmci_cmpxchg\<close>: the \<open>cmpxchg\<close> of \<open>claim_cleaning_task\<close>;
  \<^item> \<open>PC_jvmci_do_unloading\<close>: the call of \<open>JVMCI::do_unloading\<close>;
  \<^item> \<open>PC_cc_work\<close>: the entry of \<open>CodeCacheUnloadingTask::work\<close>, where worker 0 unloads
    \<open>_first_nmethod\<close> and clears it (no other worker reads or writes that field);
  \<^item> \<open>PC_cc_claim\<close>: the body of the \<open>do\<close> loop of \<open>claim_nmethods\<close>: read the cursor, walk;
  \<^item> \<open>PC_cc_cmpxchg first claimed last\<close>: the \<open>cmpxchg\<close> that ends the \<open>do\<close> loop, with the
    cursor value read, the nmethods walked and \<open>last.method()\<close>; on success \<open>claim_nmethods\<close>
    returns and \<open>work\<close> tests \<open>num_claimed_nmethods\<close>;
  \<^item> \<open>PC_cc_unload ms\<close>: the \<open>for\<close> loop of \<open>work\<close> over the claimed nmethods still to unload;
  \<^item> \<open>PC_dedup_work\<close>: \<open>StringDedupCleaningTask::work\<close>;
  \<^item> \<open>PC_klass_work\<close>: the test of \<open>_unloading_occurred\<close> and \<open>KlassCleaningTask::work\<close> up to
    the test of \<open>_clean_klass_tree_claimed\<close> in \<open>claim_clean_klass_tree_task\<close>;
  \<^item> \<open>PC_klass_cmpxchg\<close>: the \<open>cmpxchg\<close> of \<open>claim_clean_klass_tree_task\<close>;
  \<^item> \<open>PC_clean_subklass_tree\<close>: the call of \<open>Klass::clean_subklass_tree\<close>;
  \<^item> \<open>PC_claim_next_klass\<close>: one turn of the \<open>do\<close> loop of \<open>claim_next_klass\<close>: one
    \<open>next_klass()\<close> and the test of what it gave;
  \<^item> \<open>PC_clean_klass klass\<close>: the call of \<open>clean_klass\<close>;
  \<^item> \<open>PC_done\<close>: \<open>ParallelCleaningTask::work\<close> has returned.
\<close>

datatype pc =
    PC_jvmci_work
  | PC_jvmci_cmpxchg
  | PC_jvmci_do_unloading
  | PC_cc_work
  | PC_cc_claim
  | PC_cc_cmpxchg "CompiledMethod option" "CompiledMethod list" "CompiledMethod option"
  | PC_cc_unload "CompiledMethod list"
  | PC_dedup_work
  | PC_klass_work
  | PC_klass_cmpxchg
  | PC_clean_subklass_tree
  | PC_claim_next_klass
  | PC_clean_klass Klass
  | PC_done

datatype subtask = JVMCICleaning | CodeCacheUnloading | StringDedupCleaning | KlassCleaning

text \<open>
  The observable actions: calls into the rest of the VM, the entry of each sub-task's
  \<open>work\<close>, and what each claim operation returned.
\<close>

datatype event =
    Call subtask
  | JVMCI_claim_returned bool
  | JVMCI_do_unloading bool
  | Nmethod_do_unloading CompiledMethod bool
  | Claim_nmethods_returned "CompiledMethod option" "CompiledMethod list"
  | StringDedup_gc_prologue bool
  | StringDedup_parallel_unlink nat
  | StringDedup_gc_epilogue
  | Klass_tree_claim_returned bool
  | Klass_clean_subklass_tree
  | Claim_next_klass_returned "Klass option"
  | Clean_klass Klass
  | CodeCache_verify_clean_inline_caches
  | CodeCache_verify_icholder_relocations

datatype thread = VMThread | GangWorker nat

text \<open>
  The fields of the task objects (\<open>_unloading_occurred\<close> of \<open>ParallelCleaningTask\<close> and of
  \<open>CodeCacheUnloadingTask\<close> are built from the same argument and never written again: one
  field), the position of every worker, and the actions so far.
  Modelled from the spec: the class iterator \<open>_klass_iterator\<close>
  (\<open>ClassLoaderDataGraphKlassIteratorAtomic\<close> is not among the sources) is the list of classes
  not yet handed out; \<open>next_klass()\<close> hands out the next one atomically, or \<open>NULL\<close> once
  exhausted.
\<close>

record state =
  unloading_occurred :: bool
  num_workers :: nat
  first_nmethod :: "CompiledMethod option"
  claimed_nmethod :: "CompiledMethod option"
  cleaning_claimed :: int
  clean_klass_tree_claimed :: int
  klass_iterator :: "Klass list"
  pcs :: "pc list"
  trace :: "(thread \<times> event) list"

definition goto :: "nat \<Rightarrow> pc \<Rightarrow> state \<Rightarrow> state" where
  "goto w p s = s\<lparr>pcs := (pcs s)[w := p]\<rparr>"

definition emit :: "nat \<Rightarrow> event \<Rightarrow> state \<Rightarrow> state" where
  "emit w e s = s\<lparr>trace := trace s @ [(GangWorker w, e)]\<rparr>"

subsection \<open>Constructors and destructors\<close>

text \<open>
  \<open>ParallelCleaningTask::ParallelCleaningTask\<close> builds \<open>_string_dedup_task\<close> (which calls
  \<open>StringDedup::gc_prologue(resize_table)\<close> if the subsystem is enabled), \<open>_code_cache_task\<close>
  (which looks up the first alive nmethod and stores it in \<open>_first_nmethod\<close> and
  \<open>_claimed_nmethod\<close>), and the two claim flags at 0. Every worker is about to call \<open>work\<close>,
  whose first statement exists only under \<open>INCLUDE_JVMCI\<close>.
\<close>

definition work_entry :: "vm \<Rightarrow> pc" where
  "work_entry vm = (if INCLUDE_JVMCI vm then PC_jvmci_work else PC_cc_work)"

definition StringDedupCleaningTask_ctor :: "vm \<Rightarrow> bool \<Rightarrow> (thread \<times> event) list" where
  "StringDedupCleaningTask_ctor vm resize_table =
     (if StringDedup_is_enabled vm then [(VMThread, StringDedup_gc_prologue resize_table)] else [])"

definition ParallelCleaningTask_ctor :: "vm \<Rightarrow> nat \<Rightarrow> bool \<Rightarrow> bool \<Rightarrow> state" where
  "ParallelCleaningTask_ctor vm n unloading resize_dedup_table =
     \<lparr> unloading_occurred = unloading,
       num_workers = n,
       first_nmethod = iterator_next (alive_nmethods vm) None,
       claimed_nmethod = iterator_next (alive_nmethods vm) None,
       cleaning_claimed = 0,
       clean_klass_tree_claimed = 0,
       klass_iterator = loaded_klasses vm,
       pcs = replicate n (work_entry vm),
       trace = StringDedupCleaningTask_ctor vm resize_dedup_table \<rparr>"

text \<open>
  The destructors run when the pass is over, members in the reverse order of their
  construction: \<open>~CodeCacheUnloadingTask\<close> verifies the code cache, \<open>~StringDedupCleaningTask\<close>
  calls \<open>StringDedup::gc_epilogue()\<close> if the subsystem is enabled.
\<close>

definition CodeCacheUnloadingTask_dtor :: "state \<Rightarrow> state" where
  "CodeCacheUnloadingTask_dtor s =
     s\<lparr>trace := trace s @ [(VMThread, CodeCache_verify_clean_inline_caches),
                            (VMThread, CodeCache_verify_icholder_relocations)]\<rparr>"

definition StringDedupCleaningTask_dtor :: "vm \<Rightarrow> state \<Rightarrow> state" where
  "StringDedupCleaningTask_dtor vm s =
     (if StringDedup_is_enabled vm
      then s\<lparr>trace := trace s @ [(VMThread, StringDedup_gc_epilogue)]\<rparr> else s)"

definition ParallelCleaningTask_dtor :: "vm \<Rightarrow> state \<Rightarrow> state" where
  "ParallelCleaningTask_dtor vm s = StringDedupCleaningTask_dtor vm (CodeCacheUnloadingTask_dtor s)"

subsection \<open>The workers\<close>

text \<open>
  The \<open>for\<close> loop of \<open>claim_nmethods\<close>: at most \<open>n\<close> calls of \<open>last.next()\<close>, each success
  storing \<open>last.method()\<close> in \<open>claimed_nmethods\<close>; the result is the claimed methods and the
  iterator.
\<close>

fun claim_loop :: "vm \<Rightarrow> nat \<Rightarrow> CompiledMethodIterator \<Rightarrow> CompiledMethod list
    \<Rightarrow> CompiledMethod list \<times> CompiledMethodIterator" where
  "claim_loop vm 0 it claimed = (claimed, it)"
| "claim_loop vm (Suc n) it claimed =
     (case iterator_next (alive_nmethods vm) it of
        None \<Rightarrow> (claimed, iterator_at_end vm it)
      | Some m \<Rightarrow> claim_loop vm n (Some m) (claimed @ [m]))"

text \<open>
  The body of the \<open>do\<close> loop before the compare-and-swap, for the value \<open>first\<close> just read
  from \<open>_claimed_nmethod\<close>: nothing is walked from \<open>NULL\<close>.
\<close>

definition claim_walk :: "vm \<Rightarrow> CompiledMethod option \<Rightarrow> CompiledMethod list \<times> CompiledMethodIterator" where
  "claim_walk vm first =
     (if first \<noteq> None then claim_loop vm (nat (MaxClaimNmethods vm)) first []
      else ([], first))"

text \<open>One step of worker \<open>w\<close> standing at a given place.\<close>

fun exec :: "vm \<Rightarrow> nat \<Rightarrow> pc \<Rightarrow> state \<Rightarrow> state" where
  "exec vm w PC_jvmci_work s =
     (if unloading_occurred s \<and> EnableJVMCI vm then
        (if cleaning_claimed s \<noteq> 0
         then goto w PC_cc_work (emit w (JVMCI_claim_returned False) (emit w (Call JVMCICleaning) s))
         else goto w PC_jvmci_cmpxchg (emit w (Call JVMCICleaning) s))
      else goto w PC_cc_work (emit w (Call JVMCICleaning) s))"
| "exec vm w PC_jvmci_cmpxchg s =
     (case cmpxchg 1 (cleaning_claimed s) 0 of (new, old) \<Rightarrow>
        if old = 0
        then goto w PC_jvmci_do_unloading
               (emit w (JVMCI_claim_returned True) (s\<lparr>cleaning_claimed := new\<rparr>))
        else goto w PC_cc_work
               (emit w (JVMCI_claim_returned False) (s\<lparr>cleaning_claimed := new\<rparr>)))"
| "exec vm w PC_jvmci_do_unloading s =
     goto w PC_cc_work (emit w (JVMCI_do_unloading (unloading_occurred s)) s)"
| "exec vm w PC_cc_work s =
     (case first_nmethod s of
        Some m \<Rightarrow>
          if w = 0
          then goto w PC_cc_claim
                 (emit w (Nmethod_do_unloading m (unloading_occurred s))
                    (emit w (Call CodeCacheUnloading) s)\<lparr>first_nmethod := None\<rparr>)
          else goto w PC_cc_claim (emit w (Call CodeCacheUnloading) s)
      | None \<Rightarrow> goto w PC_cc_claim (emit w (Call CodeCacheUnloading) s))"
| "exec vm w PC_cc_claim s =
     (case claim_walk vm (claimed_nmethod s) of (claimed, last_method) \<Rightarrow>
        goto w (PC_cc_cmpxchg (claimed_nmethod s) claimed last_method) s)"
| "exec vm w (PC_cc_cmpxchg first claimed last_method) s =
     (case cmpxchg last_method (claimed_nmethod s) first of (new, old) \<Rightarrow>
        if old \<noteq> first then goto w PC_cc_claim (s\<lparr>claimed_nmethod := new\<rparr>)
        else if claimed = []
        then goto w PC_dedup_work
               (emit w (Claim_nmethods_returned first claimed) (s\<lparr>claimed_nmethod := new\<rparr>))
        else goto w (PC_cc_unload claimed)
               (emit w (Claim_nmethods_returned first claimed) (s\<lparr>claimed_nmethod := new\<rparr>)))"
| "exec vm w (PC_cc_unload []) s = goto w PC_cc_claim s"
| "exec vm w (PC_cc_unload (m # rest)) s =
     goto w (PC_cc_unload rest) (emit w (Nmethod_do_unloading m (unloading_occurred s)) s)"
| "exec vm w PC_dedup_work s =
     (if StringDedup_is_enabled vm
      then goto w PC_klass_work
             (emit w (StringDedup_parallel_unlink w) (emit w (Call StringDedupCleaning) s))
      else goto w PC_klass_work (emit w (Call StringDedupCleaning) s))"
| "exec vm w PC_klass_work s =
     (if unloading_occurred s then
        (if clean_klass_tree_claimed s \<noteq> 0
         then goto w PC_claim_next_klass
                (emit w (Klass_tree_claim_returned False) (emit w (Call KlassCleaning) s))
         else goto w PC_klass_cmpxchg (emit w (Call KlassCleaning) s))
      else goto w PC_done s)"
| "exec vm w PC_klass_cmpxchg s =
     (case cmpxchg 1 (clean_klass_tree_claimed s) 0 of (new, old) \<Rightarrow>
        if old = 0
        then goto w PC_clean_subklass_tree
               (emit w (Klass_tree_claim_returned True) (s\<lparr>clean_klass_tree_claimed := new\<rparr>))
        else goto w PC_claim_next_klass
               (emit w (Klass_tree_claim_returned False) (s\<lparr>clean_klass_tree_claimed := new\<rparr>)))"
| "exec vm w PC_clean_subklass_tree s =
     goto w PC_claim_next_klass (emit w Klass_clean_subklass_tree s)"
| "exec vm w PC_claim_next_klass s =
     (case klass_iterator s of
        [] \<Rightarrow> goto w PC_done (emit w (Claim_next_klass_returned None) s)
      | klass # rest \<Rightarrow>
          if \<not> is_instance_klass klass then goto w PC_claim_next_klass (s\<lparr>klass_iterator := rest\<rparr>)
          else goto w (PC_clean_klass klass)
                 (emit w (Claim_next_klass_returned (Some klass)) (s\<lparr>klass_iterator := rest\<rparr>)))"
| "exec vm w (PC_clean_klass klass) s =
     goto w PC_claim_next_klass (emit w (Clean_klass klass) s)"
| "exec vm w PC_done s = s"

text \<open>
  The scheduler lets one worker make one step; a worker that does not exist or that has
  returned from \<open>work\<close> does nothing. An interleaving is the list of the workers chosen.
\<close>

definition step :: "vm \<Rightarrow> nat \<Rightarrow> state \<Rightarrow> state" where
  "step vm w s = (if w < length (pcs s) then exec vm w (pcs s ! w) s else s)"

definition run :: "vm \<Rightarrow> nat list \<Rightarrow> state \<Rightarrow> state" where
  "run vm sched s = fold (step vm) sched s"

definition all_done :: "state \<Rightarrow> bool" where
  "all_done s = (\<forall>p \<in> set (pcs s). p = PC_done)"


text \<open>
  A whole pass: the constructor, the workers under a given interleaving, the destructor.
\<close>

definition pass :: "vm \<Rightarrow> nat \<Rightarrow> bool \<Rightarrow> bool \<Rightarrow> nat list \<Rightarrow> state" where
  "pass vm n unloading resize_dedup_table sched =
     ParallelCleaningTask_dtor vm (run vm sched (ParallelCleaningTask_ctor vm n unloading resize_dedup_table))"


section \<open>Reading the actions of a pass\<close>

definition events :: "state \<Rightarrow> event list" where
  "events s = map snd (trace s)"

definition events_of :: "nat \<Rightarrow> state \<Rightarrow> event list" where
  "events_of w s = map snd (filter (\<lambda>x. fst x = GangWorker w) (trace s))"

definition pick :: "('a \<Rightarrow> 'b list) \<Rightarrow> 'a list \<Rightarrow> 'b list" where
  "pick f es = concat (map f es)"

fun unload_of :: "event \<Rightarrow> (CompiledMethod \<times> bool) list" where
  "unload_of (Nmethod_do_unloading m b) = [(m, b)]"
| "unload_of _ = []"

fun batch_of :: "event \<Rightarrow> (CompiledMethod option \<times> CompiledMethod list) list" where
  "batch_of (Claim_nmethods_returned f b) = [(f, b)]"
| "batch_of _ = []"

fun jvmci_claim_of :: "event \<Rightarrow> bool list" where
  "jvmci_claim_of (JVMCI_claim_returned b) = [b]"
| "jvmci_claim_of _ = []"

fun jvmci_unloading_of :: "event \<Rightarrow> bool list" where
  "jvmci_unloading_of (JVMCI_do_unloading b) = [b]"
| "jvmci_unloading_of _ = []"

fun tree_claim_of :: "event \<Rightarrow> bool list" where
  "tree_claim_of (Klass_tree_claim_returned b) = [b]"
| "tree_claim_of _ = []"

fun tree_clean_of :: "event \<Rightarrow> unit list" where
  "tree_clean_of Klass_clean_subklass_tree = [()]"
| "tree_clean_of _ = []"

fun next_klass_of :: "event \<Rightarrow> Klass option list" where
  "next_klass_of (Claim_next_klass_returned k) = [k]"
| "next_klass_of _ = []"

fun klass_of :: "Klass option \<Rightarrow> Klass list" where
  "klass_of None = []"
| "klass_of (Some k) = [k]"

fun clean_klass_of :: "event \<Rightarrow> Klass list" where
  "clean_klass_of (Clean_klass k) = [k]"
| "clean_klass_of _ = []"

fun call_of :: "event \<Rightarrow> subtask list" where
  "call_of (Call t) = [t]"
| "call_of _ = []"

fun dedup_of :: "event \<Rightarrow> event list" where
  "dedup_of (StringDedup_gc_prologue b) = [StringDedup_gc_prologue b]"
| "dedup_of (StringDedup_parallel_unlink w) = [StringDedup_parallel_unlink w]"
| "dedup_of StringDedup_gc_epilogue = [StringDedup_gc_epilogue]"
| "dedup_of _ = []"

fun bracket_of :: "event \<Rightarrow> event list" where
  "bracket_of (StringDedup_gc_prologue b) = [StringDedup_gc_prologue b]"
| "bracket_of StringDedup_gc_epilogue = [StringDedup_gc_epilogue]"
| "bracket_of _ = []"

text \<open>The sub-task an action belongs to, numbered in the order of the calls in \<open>work\<close>.\<close>

fun subtask_no :: "subtask \<Rightarrow> nat" where
  "subtask_no JVMCICleaning = 1"
| "subtask_no CodeCacheUnloading = 2"
| "subtask_no StringDedupCleaning = 3"
| "subtask_no KlassCleaning = 4"

fun phase :: "event \<Rightarrow> nat" where
  "phase (Call t) = subtask_no t"
| "phase (JVMCI_claim_returned _) = 1"
| "phase (JVMCI_do_unloading _) = 1"
| "phase (Nmethod_do_unloading _ _) = 2"
| "phase (Claim_nmethods_returned _ _) = 2"
| "phase (StringDedup_gc_prologue _) = 3"
| "phase (StringDedup_parallel_unlink _) = 3"
| "phase StringDedup_gc_epilogue = 3"
| "phase (Klass_tree_claim_returned _) = 4"
| "phase Klass_clean_subklass_tree = 4"
| "phase (Claim_next_klass_returned _) = 4"
| "phase (Clean_klass _) = 4"
| "phase CodeCache_verify_clean_inline_caches = 2"
| "phase CodeCache_verify_icholder_relocations = 2"

text \<open>The sub-task a worker is in (0 before the first call, 5 after the last).\<close>

fun pc_phase :: "pc \<Rightarrow> nat" where
  "pc_phase PC_jvmci_work = 0"
| "pc_phase PC_jvmci_cmpxchg = 1"
| "pc_phase PC_jvmci_do_unloading = 1"
| "pc_phase PC_cc_work = 1"
| "pc_phase PC_cc_claim = 2"
| "pc_phase (PC_cc_cmpxchg _ _ _) = 2"
| "pc_phase (PC_cc_unload _) = 2"
| "pc_phase PC_dedup_work = 2"
| "pc_phase PC_klass_work = 3"
| "pc_phase PC_klass_cmpxchg = 4"
| "pc_phase PC_clean_subklass_tree = 4"
| "pc_phase PC_claim_next_klass = 4"
| "pc_phase (PC_clean_klass _) = 4"
| "pc_phase PC_done = 5"

text \<open>The calls of sub-tasks a worker has made when it stands at a given place.\<close>

definition jvmci_call :: "vm \<Rightarrow> subtask list" where
  "jvmci_call vm = (if INCLUDE_JVMCI vm then [JVMCICleaning] else [])"

definition work_order :: "vm \<Rightarrow> bool \<Rightarrow> subtask list" where
  "work_order vm unloading =
     jvmci_call vm @ [CodeCacheUnloading, StringDedupCleaning] @ (if unloading then [KlassCleaning] else [])"

fun calls_before :: "vm \<Rightarrow> bool \<Rightarrow> pc \<Rightarrow> subtask list" where
  "calls_before vm u PC_jvmci_work = []"
| "calls_before vm u PC_jvmci_cmpxchg = jvmci_call vm"
| "calls_before vm u PC_jvmci_do_unloading = jvmci_call vm"
| "calls_before vm u PC_cc_work = jvmci_call vm"
| "calls_before vm u PC_cc_claim = jvmci_call vm @ [CodeCacheUnloading]"
| "calls_before vm u (PC_cc_cmpxchg _ _ _) = jvmci_call vm @ [CodeCacheUnloading]"
| "calls_before vm u (PC_cc_unload _) = jvmci_call vm @ [CodeCacheUnloading]"
| "calls_before vm u PC_dedup_work = jvmci_call vm @ [CodeCacheUnloading]"
| "calls_before vm u PC_klass_work = jvmci_call vm @ [CodeCacheUnloading, StringDedupCleaning]"
| "calls_before vm u PC_klass_cmpxchg =
     jvmci_call vm @ [CodeCacheUnloading, StringDedupCleaning, KlassCleaning]"
| "calls_before vm u PC_clean_subklass_tree =
     jvmci_call vm @ [CodeCacheUnloading, StringDedupCleaning, KlassCleaning]"
| "calls_before vm u PC_claim_next_klass =
     jvmci_call vm @ [CodeCacheUnloading, StringDedupCleaning, KlassCleaning]"
| "calls_before vm u (PC_clean_klass _) =
     jvmci_call vm @ [CodeCacheUnloading, StringDedupCleaning, KlassCleaning]"
| "calls_before vm u PC_done = work_order vm u"

text \<open>Places after the return of a sub-task's \<open>work\<close>, or of a claim operation.\<close>

fun returned_from_jvmci :: "pc \<Rightarrow> bool" where
  "returned_from_jvmci PC_jvmci_work = False"
| "returned_from_jvmci PC_jvmci_cmpxchg = False"
| "returned_from_jvmci PC_jvmci_do_unloading = False"
| "returned_from_jvmci _ = True"

fun jvmci_claim_returned :: "pc \<Rightarrow> bool" where
  "jvmci_claim_returned PC_jvmci_work = False"
| "jvmci_claim_returned PC_jvmci_cmpxchg = False"
| "jvmci_claim_returned _ = True"

fun cc_started :: "pc \<Rightarrow> bool" where
  "cc_started PC_jvmci_work = False"
| "cc_started PC_jvmci_cmpxchg = False"
| "cc_started PC_jvmci_do_unloading = False"
| "cc_started PC_cc_work = False"
| "cc_started _ = True"

fun returned_from_cc :: "pc \<Rightarrow> bool" where
  "returned_from_cc PC_dedup_work = True"
| "returned_from_cc PC_klass_work = True"
| "returned_from_cc PC_klass_cmpxchg = True"
| "returned_from_cc PC_clean_subklass_tree = True"
| "returned_from_cc PC_claim_next_klass = True"
| "returned_from_cc (PC_clean_klass _) = True"
| "returned_from_cc PC_done = True"
| "returned_from_cc _ = False"

fun tree_claim_returned :: "pc \<Rightarrow> bool" where
  "tree_claim_returned PC_clean_subklass_tree = True"
| "tree_claim_returned PC_claim_next_klass = True"
| "tree_claim_returned (PC_clean_klass _) = True"
| "tree_claim_returned PC_done = True"
| "tree_claim_returned _ = False"

fun in_klass_work :: "pc \<Rightarrow> bool" where
  "in_klass_work PC_klass_cmpxchg = True"
| "in_klass_work PC_clean_subklass_tree = True"
| "in_klass_work PC_claim_next_klass = True"
| "in_klass_work (PC_clean_klass _) = True"
| "in_klass_work _ = False"

text \<open>What a worker still holds: claimed nmethods not yet unloaded, a class not yet cleaned.\<close>

fun pending :: "pc \<Rightarrow> CompiledMethod list" where
  "pending (PC_cc_unload ms) = ms"
| "pending _ = []"

fun pending_klass :: "pc \<Rightarrow> Klass list" where
  "pending_klass (PC_clean_klass k) = [k]"
| "pending_klass _ = []"


section \<open>Invariants of the interleaved workers\<close>

text \<open>The alive methods up to and including \<open>x\<close>: what a cursor at \<open>x\<close> has handed out.\<close>

fun upto_incl :: "CompiledMethod list \<Rightarrow> CompiledMethod \<Rightarrow> CompiledMethod list" where
  "upto_incl [] x = []"
| "upto_incl (y # ys) x = y # (if y = x then [] else upto_incl ys x)"

definition claimed_prefix :: "CompiledMethod list \<Rightarrow> CompiledMethod option \<Rightarrow> CompiledMethod list" where
  "claimed_prefix A c = (case c of None \<Rightarrow> A | Some m \<Rightarrow> upto_incl A m)"

definition valid_cursor :: "vm \<Rightarrow> CompiledMethod option \<Rightarrow> bool" where
  "valid_cursor vm c = (case c of None \<Rightarrow> True | Some m \<Rightarrow> m \<in> set (alive_nmethods vm))"

text \<open>
  The cursor is \<open>NULL\<close> or an alive nmethod; a worker about to compare-and-swap holds what
  the walk from the cursor value it read gives, and every batch returned is such a walk.
\<close>

fun cc_local :: "vm \<Rightarrow> pc \<Rightarrow> bool" where
  "cc_local vm (PC_cc_cmpxchg f b l) = (valid_cursor vm f \<and> claim_walk vm f = (b, l))"
| "cc_local vm _ = True"

fun batch_ok :: "vm \<Rightarrow> CompiledMethod option \<times> CompiledMethod list \<Rightarrow> bool" where
  "batch_ok vm (f, b) = (valid_cursor vm f \<and> (\<exists>l. claim_walk vm f = (b, l)))"

definition no_alive_after :: "vm \<Rightarrow> CompiledMethod option \<Rightarrow> bool" where
  "no_alive_after vm c =
     (case c of None \<Rightarrow> True | Some m \<Rightarrow> next_alive (alive_nmethods vm) m = None)"

definition cc_inv_A :: "vm \<Rightarrow> state \<Rightarrow> bool" where
  "cc_inv_A vm s =
     (valid_cursor vm (claimed_nmethod s)
      \<and> (\<forall>i < length (pcs s). cc_local vm (pcs s ! i))
      \<and> (\<forall>fb \<in> set (pick batch_of (events s)). batch_ok vm fb))"

definition returned_batches :: "state \<Rightarrow> CompiledMethod list list" where
  "returned_batches s = map snd (pick batch_of (events s))"

definition unloaded_nmethods :: "state \<Rightarrow> CompiledMethod list" where
  "unloaded_nmethods s = map fst (pick unload_of (events s))"

definition sentinel :: "vm \<Rightarrow> CompiledMethod list" where
  "sentinel vm = (case first_alive (alive_nmethods vm) of None \<Rightarrow> [] | Some m \<Rightarrow> [m])"

text \<open>
  The batches returned so far, one after the other, are the alive nmethods after the first
  one up to the cursor.
\<close>

definition cc_inv_B :: "vm \<Rightarrow> state \<Rightarrow> bool" where
  "cc_inv_B vm s =
     (concat (returned_batches s) = tl (claimed_prefix (alive_nmethods vm) (claimed_nmethod s)))"

text \<open>
  \<open>_first_nmethod\<close> holds the first alive nmethod until worker 0 has entered the loop of
  \<open>work\<close>, and \<open>NULL\<close> from then on.
\<close>

definition sentinel_done :: "vm \<Rightarrow> state \<Rightarrow> CompiledMethod list" where
  "sentinel_done vm s = (if first_nmethod s = None then sentinel vm else [])"

definition cc_inv_S :: "vm \<Rightarrow> state \<Rightarrow> bool" where
  "cc_inv_S vm s =
     (first_nmethod s =
        (if 0 < length (pcs s) \<and> cc_started (pcs s ! 0) then None
         else first_alive (alive_nmethods vm)))"

text \<open>
  What all workers hold together. Every nmethod handed out (the first one to worker 0, the
  others in batches) has been unloaded once or is held by the worker it was handed to.
\<close>

definition held :: "(pc \<Rightarrow> 'a list) \<Rightarrow> state \<Rightarrow> 'a multiset" where
  "held g s = sum_list (map (\<lambda>p. mset (g p)) (pcs s))"

definition cc_inv_U :: "vm \<Rightarrow> state \<Rightarrow> bool" where
  "cc_inv_U vm s =
     (mset (unloaded_nmethods s) + held pending s
        = mset (concat (returned_batches s)) + mset (sentinel_done vm s))"

text \<open>
  Once an empty batch has been returned the cursor has handed out everything; a worker
  that has left the loop of \<open>work\<close> has been given an empty batch.
\<close>

definition cc_inv_Y :: "vm \<Rightarrow> state \<Rightarrow> bool" where
  "cc_inv_Y vm s =
     ([] \<in> set (returned_batches s) \<longrightarrow>
        claimed_prefix (alive_nmethods vm) (claimed_nmethod s) = alive_nmethods vm)"

definition cc_inv_Z :: "state \<Rightarrow> bool" where
  "cc_inv_Z s =
     (\<forall>i < length (pcs s). returned_from_cc (pcs s ! i) \<longrightarrow> [] \<in> set (returned_batches s))"

definition cc_inv :: "vm \<Rightarrow> state \<Rightarrow> bool" where
  "cc_inv vm s = (cc_inv_A vm s \<and> cc_inv_B vm s \<and> cc_inv_S vm s \<and> cc_inv_U vm s \<and> cc_inv_Z s
     \<and> (0 < MaxClaimNmethods vm \<longrightarrow> cc_inv_Y vm s))"

text \<open>
  Concrete passes: two workers on four alive nmethods with batches of two, everything
  enabled and unloading having occurred (\<open>pass1\<close>, and \<open>pass3\<close> with the other behaviour of
  the iterator at the end); and two workers with no unloading, JVMCI switched off and
  string deduplication disabled (\<open>pass2\<close>).
\<close>

definition vm1 :: vm where
  "vm1 = \<lparr>INCLUDE_JVMCI = True, EnableJVMCI = True, StringDedup_is_enabled = True,
          MaxClaimNmethods = 2, method_NULL_at_end = True, alive_nmethods = [10, 11, 12, 13],
          loaded_klasses = [InstanceKlass 1, ArrayKlass 2, InstanceKlass 3]\<rparr>"

definition sched1 :: "nat list" where
  "sched1 = concat (replicate 12 [0, 1, 1]) @ replicate 12 0"

definition vm2 :: vm where
  "vm2 = \<lparr>INCLUDE_JVMCI = True, EnableJVMCI = False, StringDedup_is_enabled = False,
          MaxClaimNmethods = 2, method_NULL_at_end = False, alive_nmethods = [10, 11],
          loaded_klasses = [InstanceKlass 1, ArrayKlass 2]\<rparr>"

definition sched2 :: "nat list" where
  "sched2 = concat (replicate 10 [0, 1])"

definition pass1 :: state where
  "pass1 = run vm1 sched1 (ParallelCleaningTask_ctor vm1 2 True False)"

definition pass2 :: state where
  "pass2 = run vm2 sched2 (ParallelCleaningTask_ctor vm2 2 False False)"

definition vm3 :: vm where
  "vm3 = vm1\<lparr>method_NULL_at_end := False\<rparr>"

definition pass3 :: state where
  "pass3 = run vm3 sched1 (ParallelCleaningTask_ctor vm3 2 True False)"

text \<open>What the two claim operations returned, in the order of the returns.\<close>

definition jvmci_claims :: "state \<Rightarrow> bool list" where
  "jvmci_claims s = pick jvmci_claim_of (events s)"

definition jvmci_unloadings :: "state \<Rightarrow> bool list" where
  "jvmci_unloadings s = pick jvmci_unloading_of (events s)"

definition tree_claims :: "state \<Rightarrow> bool list" where
  "tree_claims s = pick tree_claim_of (events s)"

definition tree_cleanings :: "state \<Rightarrow> unit list" where
  "tree_cleanings s = pick tree_clean_of (events s)"

text \<open>A claim flag and the answers given so far: unclaimed, or claimed with one winner.\<close>

definition gate_inv :: "int \<Rightarrow> bool list \<Rightarrow> bool" where
  "gate_inv flag R = ((flag = 0 \<and> R = []) \<or> (flag = 1 \<and> count_list R True = 1))"

text \<open>
  The JVMCI claim: nothing happens unless the task is compiled in, unloading occurred and
  \<open>EnableJVMCI\<close> is set; otherwise every worker past the claim has one answer; the calls of
  \<open>JVMCI::do_unloading\<close> made and about to be made are as many as the claims won, and are
  made by the winner.
\<close>

definition jvmci_on :: "vm \<Rightarrow> state \<Rightarrow> bool" where
  "jvmci_on vm s = (INCLUDE_JVMCI vm \<and> unloading_occurred s \<and> EnableJVMCI vm)"

definition jvmci_inv_0 :: "vm \<Rightarrow> state \<Rightarrow> bool" where
  "jvmci_inv_0 vm s =
     ((\<not> INCLUDE_JVMCI vm \<longrightarrow> (\<forall>i < length (pcs s). pcs s ! i \<noteq> PC_jvmci_work))
      \<and> (\<not> jvmci_on vm s \<longrightarrow>
           jvmci_claims s = [] \<and> jvmci_unloadings s = [] \<and> cleaning_claimed s = 0
           \<and> (\<forall>i < length (pcs s). pcs s ! i \<noteq> PC_jvmci_cmpxchg \<and> pcs s ! i \<noteq> PC_jvmci_do_unloading)))"

definition jvmci_inv_N :: "vm \<Rightarrow> state \<Rightarrow> bool" where
  "jvmci_inv_N vm s =
     (jvmci_on vm s \<longrightarrow> length (jvmci_claims s) = length (filter jvmci_claim_returned (pcs s)))"

definition jvmci_inv_U :: "state \<Rightarrow> bool" where
  "jvmci_inv_U s =
     (length (jvmci_unloadings s) + length (filter (\<lambda>p. p = PC_jvmci_do_unloading) (pcs s))
        = count_list (jvmci_claims s) True
      \<and> (\<forall>b \<in> set (jvmci_unloadings s). b = unloading_occurred s))"

definition jvmci_inv_W :: "state \<Rightarrow> bool" where
  "jvmci_inv_W s =
     (\<forall>i. ((\<exists>b. (GangWorker i, JVMCI_do_unloading b) \<in> set (trace s))
            \<or> (i < length (pcs s) \<and> pcs s ! i = PC_jvmci_do_unloading))
          \<longrightarrow> (GangWorker i, JVMCI_claim_returned True) \<in> set (trace s))"

definition jvmci_inv :: "vm \<Rightarrow> state \<Rightarrow> bool" where
  "jvmci_inv vm s =
     (gate_inv (cleaning_claimed s) (jvmci_claims s) \<and> jvmci_inv_0 vm s \<and> jvmci_inv_N vm s
      \<and> jvmci_inv_U s \<and> jvmci_inv_W s)"

text \<open>
  Klass cleaning: the same for the claim of the subclass tree; without unloading nothing
  of it happens; the classes returned by \<open>claim_next_klass\<close> followed by the instance
  classes still in the iterator are the instance classes loaded; every class returned has
  been cleaned or is held by the worker it was returned to; a worker is done only when the
  iterator is exhausted.
\<close>

definition klass_events :: "state \<Rightarrow> event list" where
  "klass_events s = filter (\<lambda>e. phase e = 4) (events s)"

definition claimed_klasses :: "state \<Rightarrow> Klass list" where
  "claimed_klasses s = pick klass_of (pick next_klass_of (events s))"

definition cleaned_klasses :: "state \<Rightarrow> Klass list" where
  "cleaned_klasses s = pick clean_klass_of (events s)"

definition tree_inv_N :: "state \<Rightarrow> bool" where
  "tree_inv_N s =
     (unloading_occurred s \<longrightarrow>
        length (tree_claims s) = length (filter tree_claim_returned (pcs s)))"

definition tree_inv_U :: "state \<Rightarrow> bool" where
  "tree_inv_U s =
     (length (tree_cleanings s) + length (filter (\<lambda>p. p = PC_clean_subklass_tree) (pcs s))
        = count_list (tree_claims s) True)"

definition klass_inv_0 :: "vm \<Rightarrow> state \<Rightarrow> bool" where
  "klass_inv_0 vm s =
     (\<not> unloading_occurred s \<longrightarrow>
        klass_events s = [] \<and> clean_klass_tree_claimed s = 0
        \<and> klass_iterator s = loaded_klasses vm
        \<and> (\<forall>i < length (pcs s). \<not> in_klass_work (pcs s ! i)))"

definition klass_inv_L1 :: "vm \<Rightarrow> state \<Rightarrow> bool" where
  "klass_inv_L1 vm s =
     (claimed_klasses s @ filter is_instance_klass (klass_iterator s)
        = filter is_instance_klass (loaded_klasses vm))"

definition klass_inv_L2 :: "state \<Rightarrow> bool" where
  "klass_inv_L2 s = (mset (cleaned_klasses s) + held pending_klass s = mset (claimed_klasses s))"

definition klass_inv_L3 :: "state \<Rightarrow> bool" where
  "klass_inv_L3 s =
     (unloading_occurred s \<longrightarrow>
        (\<forall>i < length (pcs s). pcs s ! i = PC_done \<longrightarrow> klass_iterator s = []))"

definition klass_inv :: "vm \<Rightarrow> state \<Rightarrow> bool" where
  "klass_inv vm s =
     (gate_inv (clean_klass_tree_claimed s) (tree_claims s) \<and> tree_inv_N s \<and> tree_inv_U s
      \<and> klass_inv_0 vm s \<and> klass_inv_L1 vm s \<and> klass_inv_L2 s \<and> klass_inv_L3 s)"

text \<open>
  A bound on the work left: how far the cursor is from the end, the classes not yet handed
  out, and for every worker the steps to its next access of the shared state.
\<close>

definition phi :: "vm \<Rightarrow> CompiledMethod option \<Rightarrow> nat" where
  "phi vm c =
     (case c of None \<Rightarrow> 0
      | Some m \<Rightarrow> 1 + (length (alive_nmethods vm) - length (upto_incl (alive_nmethods vm) m)))"

fun weight :: "nat \<Rightarrow> nat \<Rightarrow> CompiledMethod option \<Rightarrow> pc \<Rightarrow> nat" where
  "weight L F c PC_done = 0"
| "weight L F c PC_claim_next_klass = 1 + 2 * L"
| "weight L F c (PC_clean_klass _) = 2 + 2 * L"
| "weight L F c PC_clean_subklass_tree = 2 + 2 * L"
| "weight L F c PC_klass_cmpxchg = 3 + 2 * L"
| "weight L F c PC_klass_work = 4 + 2 * L"
| "weight L F c PC_dedup_work = 5 + 2 * L"
| "weight L F c (PC_cc_cmpxchg f b l) = 6 + 2 * L + 5 * F + (if f = c then 0 else 2)"
| "weight L F c PC_cc_claim = 7 + 2 * L + 5 * F"
| "weight L F c (PC_cc_unload ms) = 8 + 2 * L + 5 * F + length ms"
| "weight L F c PC_cc_work = 8 + 2 * L + 5 * F"
| "weight L F c PC_jvmci_do_unloading = 9 + 2 * L + 5 * F"
| "weight L F c PC_jvmci_cmpxchg = 10 + 2 * L + 5 * F"
| "weight L F c PC_jvmci_work = 11 + 2 * L + 5 * F"

definition remaining_work :: "vm \<Rightarrow> state \<Rightarrow> nat" where
  "remaining_work vm s =
     sum_list (map (weight (length (klass_iterator s)) (phi vm (claimed_nmethod s)) (claimed_nmethod s))
                   (pcs s))"

text \<open>The steps of an interleaving that are made by a worker still inside \<open>work\<close>.\<close>

fun busy :: "vm \<Rightarrow> nat list \<Rightarrow> state \<Rightarrow> nat" where
  "busy vm [] s = 0"
| "busy vm (w # sched) s =
     (if w < length (pcs s) \<and> pcs s ! w \<noteq> PC_done then 1 else 0) + busy vm sched (step vm w s)"

text \<open>
  The sub-tasks a worker has called are those its place tells, and its actions are sorted
  by sub-task.
\<close>

definition calls_of :: "nat \<Rightarrow> state \<Rightarrow> subtask list" where
  "calls_of i s = pick call_of (events_of i s)"

definition order_inv :: "vm \<Rightarrow> state \<Rightarrow> nat \<Rightarrow> bool" where
  "order_inv vm s i =
     (calls_of i s = calls_before vm (unloading_occurred s) (pcs s ! i)
      \<and> sorted (map phase (events_of i s))
      \<and> (\<forall>e \<in> set (events_of i s). phase e \<le> pc_phase (pcs s ! i)))"

text \<open>
  What one worker unloaded and the batches it was given, in order: the nmethods unloaded
  and those still held are the sentinel (worker 0) and the batches; the loop of \<open>work\<close> ends
  with the first empty batch.
\<close>

definition unloads_of :: "nat \<Rightarrow> state \<Rightarrow> (CompiledMethod \<times> bool) list" where
  "unloads_of i s = pick unload_of (events_of i s)"

definition batches_of :: "nat \<Rightarrow> state \<Rightarrow> CompiledMethod list list" where
  "batches_of i s = map snd (pick batch_of (events_of i s))"

definition sentinel_of :: "vm \<Rightarrow> nat \<Rightarrow> pc \<Rightarrow> CompiledMethod list" where
  "sentinel_of vm i p = (if i = 0 \<and> cc_started p then sentinel vm else [])"

definition with_flag :: "bool \<Rightarrow> CompiledMethod list \<Rightarrow> (CompiledMethod \<times> bool) list" where
  "with_flag u ms = map (\<lambda>m. (m, u)) ms"

definition worker_inv :: "vm \<Rightarrow> state \<Rightarrow> nat \<Rightarrow> bool" where
  "worker_inv vm s i =
     (unloads_of i s @ with_flag (unloading_occurred s) (pending (pcs s ! i))
        = with_flag (unloading_occurred s) (sentinel_of vm i (pcs s ! i) @ concat (batches_of i s))
      \<and> (returned_from_cc (pcs s ! i) \<longrightarrow>
            batches_of i s \<noteq> [] \<and> last (batches_of i s) = []
            \<and> [] \<notin> set (butlast (batches_of i s)))
      \<and> (\<not> returned_from_cc (pcs s ! i) \<longrightarrow> [] \<notin> set (batches_of i s))
      \<and> (\<not> cc_started (pcs s ! i) \<longrightarrow> batches_of i s = [] \<and> unloads_of i s = []))"

text \<open>
  What a worker may add to the trace: its own actions, none of them the begin or the end
  of the deduplication pass, and no deduplication action at all while the subsystem is
  disabled.
\<close>

fun worker_entry :: "vm \<Rightarrow> thread \<times> event \<Rightarrow> bool" where
  "worker_entry vm (GangWorker w, e) =
     (bracket_of e = [] \<and> (StringDedup_is_enabled vm \<or> dedup_of e = []))"
| "worker_entry vm (VMThread, e) = False"

definition dedup_inv :: "vm \<Rightarrow> bool \<Rightarrow> state \<Rightarrow> bool" where
  "dedup_inv vm r s =
     (\<exists>rest. trace s = StringDedupCleaningTask_ctor vm r @ rest \<and> list_all (worker_entry vm) rest)"


section \<open>Basic facts\<close>

lemma run_snoc: "run vm (sched @ [w]) s = step vm w (run vm sched s)"
  by (simp add: run_def)

lemma run_invariant:
  assumes "P s0"
    and "\<And>s w. P s \<Longrightarrow> w < length (pcs s) \<Longrightarrow> P (exec vm w (pcs s ! w) s)"
  shows "P (run vm sched s0)"
  using assms(1)
proof (induction sched arbitrary: s0)
  case Nil
  then show ?case by (simp add: run_def)
next
  case (Cons w sched)
  have "P (step vm w s0)" using Cons.prems assms(2) by (simp add: step_def)
  from Cons.IH [OF this] show ?case by (simp add: run_def)
qed

lemma goto_fields [simp]:
  "pcs (goto w p s) = (pcs s)[w := p]"
  "trace (goto w p s) = trace s"
  "unloading_occurred (goto w p s) = unloading_occurred s"
  "num_workers (goto w p s) = num_workers s"
  "first_nmethod (goto w p s) = first_nmethod s"
  "claimed_nmethod (goto w p s) = claimed_nmethod s"
  "cleaning_claimed (goto w p s) = cleaning_claimed s"
  "clean_klass_tree_claimed (goto w p s) = clean_klass_tree_claimed s"
  "klass_iterator (goto w p s) = klass_iterator s"
  by (simp_all add: goto_def)

lemma emit_fields [simp]:
  "pcs (emit w e s) = pcs s"
  "trace (emit w e s) = trace s @ [(GangWorker w, e)]"
  "unloading_occurred (emit w e s) = unloading_occurred s"
  "num_workers (emit w e s) = num_workers s"
  "first_nmethod (emit w e s) = first_nmethod s"
  "claimed_nmethod (emit w e s) = claimed_nmethod s"
  "cleaning_claimed (emit w e s) = cleaning_claimed s"
  "clean_klass_tree_claimed (emit w e s) = clean_klass_tree_claimed s"
  "klass_iterator (emit w e s) = klass_iterator s"
  by (simp_all add: emit_def)

lemma events_simps [simp]:
  "events (goto w p s) = events s"
  "events (emit w e s) = events s @ [e]"
  "events (s\<lparr>claimed_nmethod := c\<rparr>) = events s"
  "events (s\<lparr>first_nmethod := f\<rparr>) = events s"
  "events (s\<lparr>cleaning_claimed := i\<rparr>) = events s"
  "events (s\<lparr>clean_klass_tree_claimed := i\<rparr>) = events s"
  "events (s\<lparr>klass_iterator := ks\<rparr>) = events s"
  by (simp_all add: events_def)

lemma events_of_simps [simp]:
  "events_of v (goto w p s) = events_of v s"
  "events_of v (emit w e s) = events_of v s @ (if w = v then [e] else [])"
  "events_of v (s\<lparr>claimed_nmethod := c\<rparr>) = events_of v s"
  "events_of v (s\<lparr>first_nmethod := f\<rparr>) = events_of v s"
  "events_of v (s\<lparr>cleaning_claimed := i\<rparr>) = events_of v s"
  "events_of v (s\<lparr>clean_klass_tree_claimed := i\<rparr>) = events_of v s"
  "events_of v (s\<lparr>klass_iterator := ks\<rparr>) = events_of v s"
  by (simp_all add: events_of_def)

lemma pick_simps [simp]:
  "pick f [] = []"
  "pick f (e # es) = f e @ pick f es"
  "pick f (es @ es') = pick f es @ pick f es'"
  by (simp_all add: pick_def)

lemma length_pcs_exec [simp]: "length (pcs (exec vm w p s)) = length (pcs s)"
  by (cases "(vm, w, p, s)" rule: exec.cases)
    (simp_all add: cmpxchg_def split: option.splits list.splits prod.splits)

lemma unloading_occurred_exec [simp]:
  "unloading_occurred (exec vm w p s) = unloading_occurred s"
  by (cases "(vm, w, p, s)" rule: exec.cases)
    (simp_all add: cmpxchg_def split: option.splits list.splits prod.splits)

lemma length_pcs_run [simp]:
  "length (pcs (run vm sched s)) = length (pcs s)"
  by (induction sched arbitrary: s) (simp_all add: run_def step_def)

lemma unloading_occurred_run [simp]:
  "unloading_occurred (run vm sched s) = unloading_occurred s"
  by (induction sched arbitrary: s) (simp_all add: run_def step_def)

lemma ctor_fields [simp]:
  "pcs (ParallelCleaningTask_ctor vm n u r) = replicate n (work_entry vm)"
  "unloading_occurred (ParallelCleaningTask_ctor vm n u r) = u"
  "first_nmethod (ParallelCleaningTask_ctor vm n u r) = first_alive (alive_nmethods vm)"
  "claimed_nmethod (ParallelCleaningTask_ctor vm n u r) = first_alive (alive_nmethods vm)"
  "cleaning_claimed (ParallelCleaningTask_ctor vm n u r) = 0"
  "clean_klass_tree_claimed (ParallelCleaningTask_ctor vm n u r) = 0"
  "klass_iterator (ParallelCleaningTask_ctor vm n u r) = loaded_klasses vm"
  "trace (ParallelCleaningTask_ctor vm n u r) = StringDedupCleaningTask_ctor vm r"
  by (simp_all add: ParallelCleaningTask_ctor_def iterator_next_def)

lemma events_ctor [simp]:
  "events (ParallelCleaningTask_ctor vm n u r) =
     (if StringDedup_is_enabled vm then [StringDedup_gc_prologue r] else [])"
  "events_of w (ParallelCleaningTask_ctor vm n u r) = []"
  by (simp_all add: events_def events_of_def StringDedupCleaningTask_ctor_def)

lemma sum_list_map_update:
  fixes g :: "'a \<Rightarrow> 'b::comm_monoid_add"
  shows "i < length xs \<Longrightarrow>
    sum_list (map g (xs[i := y])) + g (xs ! i) = sum_list (map g xs) + g y"
proof (induction xs arbitrary: i)
  case Nil
  then show ?case by simp
next
  case (Cons x xs)
  show ?case
  proof (cases i)
    case 0
    then show ?thesis by (simp add: ac_simps)
  next
    case (Suc j)
    then have "j < length xs" using Cons.prems by simp
    from Cons.IH [OF this] show ?thesis using Suc by (simp add: ac_simps)
  qed
qed

lemma sum_list_map_zero:
  fixes g :: "'a \<Rightarrow> 'b::comm_monoid_add"
  shows "\<forall>i < length xs. g (xs ! i) = 0 \<Longrightarrow> sum_list (map g xs) = 0"
proof (induction xs)
  case Nil
  then show ?case by simp
next
  case (Cons x xs)
  have "g x = 0" using Cons.prems by auto
  moreover have "\<forall>i < length xs. g (xs ! i) = 0" using Cons.prems by auto
  ultimately show ?case using Cons.IH by simp
qed

lemma length_filter_update:
  "i < length xs \<Longrightarrow>
    length (filter P (xs[i := y])) + (if P (xs ! i) then 1 else 0)
      = length (filter P xs) + (if P y then 1 else 0)"
proof (induction xs arbitrary: i)
  case Nil
  then show ?case by simp
next
  case (Cons x xs)
  show ?case
  proof (cases i)
    case 0
    then show ?thesis by simp
  next
    case (Suc j)
    then have "j < length xs" using Cons.prems by simp
    from Cons.IH [OF this] show ?thesis using Suc by simp
  qed
qed

section \<open>The claim loop\<close>

lemma upto_incl_is_prefix: "\<exists>zs. A = upto_incl A x @ zs"
  by (induction A) auto

lemma upto_incl_nonempty: "x \<in> set A \<Longrightarrow> upto_incl A x \<noteq> []"
  by (cases A) auto

lemma claimed_prefix_is_prefix: "\<exists>zs. A = claimed_prefix A c @ zs"
  using upto_incl_is_prefix by (cases c) (auto simp: claimed_prefix_def)

lemma next_alive_step:
  "distinct A \<Longrightarrow> m \<in> set A \<Longrightarrow>
   (case next_alive A m of
      None \<Rightarrow> upto_incl A m = A
    | Some z \<Rightarrow> z \<in> set A \<and> upto_incl A z = upto_incl A m @ [z])"
proof (induction A)
  case Nil
  then show ?case by simp
next
  case (Cons y ys)
  show ?case
  proof (cases "y = m")
    case True
    then show ?thesis using Cons.prems by (cases ys) auto
  next
    case False
    then have m: "m \<in> set ys" and d: "distinct ys" and y: "y \<notin> set ys"
      using Cons.prems by auto
    from Cons.IH [OF d m] show ?thesis using False y
      by (auto split: option.splits)
  qed
qed

lemma claim_loop_prefix:
  "distinct (alive_nmethods vm) \<Longrightarrow> m \<in> set (alive_nmethods vm) \<Longrightarrow>
   claim_loop vm n (Some m) acc = (claimed, it) \<Longrightarrow>
   \<exists>b. claimed = acc @ b \<and> length b \<le> n
     \<and> claimed_prefix (alive_nmethods vm) it = upto_incl (alive_nmethods vm) m @ b
     \<and> (it = None \<or> (\<exists>z \<in> set (alive_nmethods vm). it = Some z))
     \<and> (0 < n \<and> b = [] \<longrightarrow>
           claimed_prefix (alive_nmethods vm) it = alive_nmethods vm
           \<and> next_alive (alive_nmethods vm) m = None)"
proof (induction n arbitrary: m acc)
  case 0
  then show ?case by (auto simp: claimed_prefix_def)
next
  case (Suc n)
  note step = next_alive_step [OF Suc.prems(1) Suc.prems(2)]
  show ?case
  proof (cases "next_alive (alive_nmethods vm) m")
    case None
    then show ?thesis using Suc.prems step
      by (cases "method_NULL_at_end vm")
         (auto simp: iterator_next_def iterator_at_end_def claimed_prefix_def)
  next
    case (Some z)
    then have z: "z \<in> set (alive_nmethods vm)"
      and pz: "upto_incl (alive_nmethods vm) z = upto_incl (alive_nmethods vm) m @ [z]"
      using step by auto
    from Suc.prems Some have "claim_loop vm n (Some z) (acc @ [z]) = (claimed, it)"
      by (simp add: iterator_next_def)
    from Suc.IH [OF Suc.prems(1) z this] obtain b where
      b: "claimed = (acc @ [z]) @ b" "length b \<le> n"
         "claimed_prefix (alive_nmethods vm) it = upto_incl (alive_nmethods vm) z @ b"
         "it = None \<or> (\<exists>z \<in> set (alive_nmethods vm). it = Some z)"
      by blast
    show ?thesis
      by (rule exI [of _ "z # b"]) (use b pz in auto)
  qed
qed

lemma claim_walk_facts:
  assumes "distinct (alive_nmethods vm)" "valid_cursor vm f" "claim_walk vm f = (b, l)"
  shows "valid_cursor vm l
    \<and> claimed_prefix (alive_nmethods vm) l = claimed_prefix (alive_nmethods vm) f @ b
    \<and> length b \<le> nat (MaxClaimNmethods vm)
    \<and> (0 < MaxClaimNmethods vm \<longrightarrow> b = [] \<longrightarrow>
          claimed_prefix (alive_nmethods vm) l = alive_nmethods vm \<and> no_alive_after vm f)"
proof (cases f)
  case None
  then show ?thesis using assms by (auto simp: claim_walk_def no_alive_after_def claimed_prefix_def)
next
  case (Some m)
  then have m: "m \<in> set (alive_nmethods vm)" using assms(2) by (simp add: valid_cursor_def)
  have "claim_loop vm (nat (MaxClaimNmethods vm)) (Some m) [] = (b, l)"
    using assms(3) Some by (simp add: claim_walk_def)
  from claim_loop_prefix [OF assms(1) m this]
  show ?thesis using Some by (auto simp: valid_cursor_def claimed_prefix_def no_alive_after_def)
qed

lemma claim_walk_None [simp]: "claim_walk vm None = ([], None)"
  by (simp add: claim_walk_def)

section \<open>Code cache unloading\<close>

lemma cc_inv_A_init: "cc_inv_A vm (ParallelCleaningTask_ctor vm n u r)"
  by (cases "alive_nmethods vm")
     (simp_all add: cc_inv_A_def valid_cursor_def first_alive_def work_entry_def)

lemma cc_inv_A_exec:
  assumes d: "distinct (alive_nmethods vm)" and inv: "cc_inv_A vm s" and w: "w < length (pcs s)"
  shows "cc_inv_A vm (exec vm w (pcs s ! w) s)"
proof -
  have loc: "cc_local vm (pcs s ! w)" using inv w by (simp add: cc_inv_A_def)
  show ?thesis
  proof (cases "pcs s ! w")
    case PC_cc_claim
    obtain b l where bl: "claim_walk vm (claimed_nmethod s) = (b, l)" by force
    show ?thesis using inv bl w by (simp add: PC_cc_claim cc_inv_A_def nth_list_update)
  next
    case (PC_cc_cmpxchg f b l)
    then have f: "valid_cursor vm f" and bl: "claim_walk vm f = (b, l)" using loc by simp_all
    note facts = claim_walk_facts [OF d f bl]
    show ?thesis using inv facts f bl w
      by (simp add: PC_cc_cmpxchg cc_inv_A_def nth_list_update cmpxchg_def)
  next
    case (PC_cc_unload ms)
    then show ?thesis using inv w by (cases ms) (simp_all add: cc_inv_A_def nth_list_update)
  next
    case PC_cc_work
    then show ?thesis using inv w by (auto simp: cc_inv_A_def nth_list_update split: option.splits)
  next
    case PC_claim_next_klass
    then show ?thesis using inv w by (simp add: cc_inv_A_def nth_list_update split: list.splits)
  qed (use inv w in \<open>simp_all add: cc_inv_A_def nth_list_update cmpxchg_def\<close>)
qed

lemma cc_inv_A_run:
  "distinct (alive_nmethods vm) \<Longrightarrow>
   cc_inv_A vm (run vm sched (ParallelCleaningTask_ctor vm n u r))"
  by (rule run_invariant) (simp_all add: cc_inv_A_init cc_inv_A_exec)

lemma cc_inv_B_init: "cc_inv_B vm (ParallelCleaningTask_ctor vm n u r)"
  by (cases "alive_nmethods vm")
     (simp_all add: cc_inv_B_def returned_batches_def claimed_prefix_def first_alive_def)

lemma cc_inv_B_exec:
  assumes d: "distinct (alive_nmethods vm)" and A: "cc_inv_A vm s" and inv: "cc_inv_B vm s"
    and w: "w < length (pcs s)"
  shows "cc_inv_B vm (exec vm w (pcs s ! w) s)"
proof (cases "pcs s ! w")
  case (PC_cc_cmpxchg f b l)
  then have f: "valid_cursor vm f" and bl: "claim_walk vm f = (b, l)"
    using A w by (auto simp: cc_inv_A_def)
  have pre: "claimed_prefix (alive_nmethods vm) l = claimed_prefix (alive_nmethods vm) f @ b"
    using claim_walk_facts [OF d f bl] by simp
  have tl: "tl (claimed_prefix (alive_nmethods vm) f @ b) = tl (claimed_prefix (alive_nmethods vm) f) @ b"
  proof (cases f)
    case None
    then show ?thesis using bl by simp
  next
    case (Some m)
    then have "claimed_prefix (alive_nmethods vm) f \<noteq> []"
      using f by (simp add: claimed_prefix_def valid_cursor_def upto_incl_nonempty)
    then show ?thesis by simp
  qed
  show ?thesis using inv pre tl
    by (simp add: PC_cc_cmpxchg cc_inv_B_def returned_batches_def cmpxchg_def)
next
  case (PC_cc_unload ms)
  then show ?thesis using inv by (cases ms) (simp_all add: cc_inv_B_def returned_batches_def)
qed (use inv in \<open>simp_all add: cc_inv_B_def returned_batches_def cmpxchg_def
        split: option.splits list.splits prod.splits\<close>)

lemma cc_inv_S_init: "cc_inv_S vm (ParallelCleaningTask_ctor vm n u r)"
  by (cases n) (simp_all add: cc_inv_S_def work_entry_def)

lemma cc_inv_S_exec:
  assumes inv: "cc_inv_S vm s" and w: "w < length (pcs s)"
  shows "cc_inv_S vm (exec vm w (pcs s ! w) s)"
proof (cases "pcs s ! w")
  case (PC_cc_unload ms)
  then show ?thesis using inv w by (cases ms) (auto simp: cc_inv_S_def nth_list_update)
qed (use inv w in \<open>auto simp: cc_inv_S_def nth_list_update cmpxchg_def
        split: option.splits list.splits prod.splits\<close>)

lemma held_goto:
  "w < length (pcs s) \<Longrightarrow>
     held g (goto w p s) + mset (g (pcs s ! w)) = held g s + mset (g p)"
  unfolding held_def goto_fields by (rule sum_list_map_update)

lemma held_zero:
  "\<forall>i < length (pcs s). g (pcs s ! i) = [] \<Longrightarrow> held g s = {#}"
  unfolding held_def by (rule sum_list_map_zero) simp

lemma held_same:
  "w < length (pcs s) \<Longrightarrow> g (pcs s ! w) = [] \<Longrightarrow> g p = [] \<Longrightarrow>
     held g (goto w p s) = held g s"
  using held_goto [of w s g p] by simp

lemma held_simps [simp]:
  "held g (emit w e s) = held g s"
  "held g (s\<lparr>claimed_nmethod := c\<rparr>) = held g s"
  "held g (s\<lparr>first_nmethod := f\<rparr>) = held g s"
  "held g (s\<lparr>cleaning_claimed := i\<rparr>) = held g s"
  "held g (s\<lparr>clean_klass_tree_claimed := i\<rparr>) = held g s"
  "held g (s\<lparr>klass_iterator := ks\<rparr>) = held g s"
  by (simp_all add: held_def)

lemma held_goto_emit [simp]:
  "held g (goto w p (emit v e s)) = held g (goto w p s)"
  "held g (goto w p (s\<lparr>claimed_nmethod := c\<rparr>)) = held g (goto w p s)"
  "held g (goto w p (s\<lparr>first_nmethod := f\<rparr>)) = held g (goto w p s)"
  "held g (goto w p (s\<lparr>cleaning_claimed := i\<rparr>)) = held g (goto w p s)"
  "held g (goto w p (s\<lparr>clean_klass_tree_claimed := i\<rparr>)) = held g (goto w p s)"
  "held g (goto w p (s\<lparr>klass_iterator := ks\<rparr>)) = held g (goto w p s)"
  by (simp_all add: held_def)

lemma sentinel_done_simps [simp]:
  "sentinel_done vm (goto w p s) = sentinel_done vm s"
  "sentinel_done vm (emit w e s) = sentinel_done vm s"
  "sentinel_done vm (s\<lparr>claimed_nmethod := c\<rparr>) = sentinel_done vm s"
  "sentinel_done vm (s\<lparr>cleaning_claimed := i\<rparr>) = sentinel_done vm s"
  "sentinel_done vm (s\<lparr>clean_klass_tree_claimed := i\<rparr>) = sentinel_done vm s"
  "sentinel_done vm (s\<lparr>klass_iterator := ks\<rparr>) = sentinel_done vm s"
  by (simp_all add: sentinel_done_def)

lemma cc_inv_U_init: "cc_inv_U vm (ParallelCleaningTask_ctor vm n u r)"
proof -
  have "held pending (ParallelCleaningTask_ctor vm n u r) = {#}"
    by (rule held_zero) (simp add: work_entry_def)
  then show ?thesis
    by (cases "alive_nmethods vm")
       (simp_all add: cc_inv_U_def unloaded_nmethods_def returned_batches_def
          sentinel_done_def sentinel_def first_alive_def)
qed

lemma cc_inv_U_exec:
  assumes S: "cc_inv_S vm s" and inv: "cc_inv_U vm s" and w: "w < length (pcs s)"
  shows "cc_inv_U vm (exec vm w (pcs s ! w) s)"
proof (cases "pcs s ! w")
  case (PC_cc_cmpxchg f b l)
  have "held pending (goto w PC_cc_claim s) = held pending s"
    "held pending (goto w PC_dedup_work s) = held pending s"
    "held pending (goto w (PC_cc_unload b) s) = held pending s + mset b"
    using held_goto [OF w, where g = pending and p = PC_cc_claim] held_goto [OF w, where g = pending and p = PC_dedup_work]
      held_goto [OF w, where g = pending and p = "PC_cc_unload b"] PC_cc_cmpxchg by simp_all
  then show ?thesis using inv
    by (simp add: PC_cc_cmpxchg cc_inv_U_def unloaded_nmethods_def returned_batches_def cmpxchg_def)
next
  case (PC_cc_unload ms)
  show ?thesis
  proof (cases ms)
    case Nil
    then have "held pending (goto w PC_cc_claim s) = held pending s"
      using held_goto [OF w, where g = pending and p = PC_cc_claim] PC_cc_unload by simp
    then show ?thesis using inv Nil
      by (simp add: PC_cc_unload cc_inv_U_def unloaded_nmethods_def returned_batches_def)
  next
    case (Cons m rest)
    then have "held pending s = held pending (goto w (PC_cc_unload rest) s) + {#m#}"
      using held_goto [OF w, where g = pending and p = "PC_cc_unload rest"] PC_cc_unload by simp
    then show ?thesis using inv Cons
      by (auto simp: PC_cc_unload cc_inv_U_def unloaded_nmethods_def returned_batches_def)
  qed
next
  case PC_cc_work
  have p: "held pending (goto w PC_cc_claim s) = held pending s"
    using held_same [OF w, where g = pending] PC_cc_work by simp
  show ?thesis
  proof (cases "first_nmethod s")
    case None
    then show ?thesis using inv p
      by (simp add: PC_cc_work cc_inv_U_def unloaded_nmethods_def returned_batches_def)
  next
    case (Some m)
    then have "first_alive (alive_nmethods vm) = Some m"
      using S by (auto simp: cc_inv_S_def split: if_splits)
    then have "sentinel vm = [m]" by (simp add: sentinel_def)
    then show ?thesis using inv p Some PC_cc_work
      by (cases "w = 0")
         (simp_all add: cc_inv_U_def unloaded_nmethods_def returned_batches_def
            sentinel_done_def)
  qed
next
  case PC_claim_next_klass
  then show ?thesis using inv held_same [OF w, where g = pending]
    by (simp add: cc_inv_U_def unloaded_nmethods_def returned_batches_def split: list.splits)
next
  case PC_cc_claim
  then show ?thesis using inv held_same [OF w, where g = pending]
    by (simp add: cc_inv_U_def unloaded_nmethods_def returned_batches_def split: prod.splits)
qed (use inv held_same [OF w, where g = pending] in
      \<open>simp_all add: cc_inv_U_def unloaded_nmethods_def returned_batches_def cmpxchg_def\<close>)

lemma prefix_full:
  assumes "P = A @ b" and "A = P @ zs"
  shows "P = A"
proof -
  have "length P = length A + length b" using assms(1) by simp
  moreover have "length A = length P + length zs" using assms(2) by (metis length_append)
  ultimately have "b = []" by simp
  then show ?thesis using assms(1) by simp
qed

lemma cc_inv_Y_exec:
  assumes d: "distinct (alive_nmethods vm)" and K: "0 < MaxClaimNmethods vm"
    and A: "cc_inv_A vm s" and inv: "cc_inv_Y vm s" and w: "w < length (pcs s)"
  shows "cc_inv_Y vm (exec vm w (pcs s ! w) s)"
proof (cases "pcs s ! w")
  case (PC_cc_cmpxchg f b l)
  then have f: "valid_cursor vm f" and bl: "claim_walk vm f = (b, l)"
    using A w by (auto simp: cc_inv_A_def)
  note facts = claim_walk_facts [OF d f bl]
  have e: "claimed_prefix (alive_nmethods vm) l = alive_nmethods vm" if "b = []"
    using facts K that by blast
  have n: "claimed_prefix (alive_nmethods vm) l = alive_nmethods vm"
    if "claimed_prefix (alive_nmethods vm) f = alive_nmethods vm"
  proof -
    obtain zs where "alive_nmethods vm = claimed_prefix (alive_nmethods vm) l @ zs"
      using claimed_prefix_is_prefix by blast
    moreover have "claimed_prefix (alive_nmethods vm) l = alive_nmethods vm @ b"
      using facts that by simp
    ultimately show ?thesis by (rule prefix_full [rotated])
  qed
  show ?thesis using inv e n
    by (auto simp: PC_cc_cmpxchg cc_inv_Y_def returned_batches_def cmpxchg_def)
next
  case (PC_cc_unload ms)
  then show ?thesis using inv by (cases ms) (simp_all add: cc_inv_Y_def returned_batches_def)
qed (use inv in \<open>simp_all add: cc_inv_Y_def returned_batches_def cmpxchg_def
        split: option.splits list.splits prod.splits\<close>)

lemma cc_inv_Z_exec:
  assumes inv: "cc_inv_Z s" and w: "w < length (pcs s)"
  shows "cc_inv_Z (exec vm w (pcs s ! w) s)"
proof (cases "pcs s ! w")
  case (PC_cc_unload ms)
  then show ?thesis using inv w
    by (cases ms) (auto simp: cc_inv_Z_def returned_batches_def nth_list_update)
qed (use inv w in \<open>auto simp: cc_inv_Z_def returned_batches_def cmpxchg_def nth_list_update
        split: option.splits list.splits prod.splits if_splits\<close>)

lemma cc_inv_run:
  assumes d: "distinct (alive_nmethods vm)"
  shows "cc_inv vm (run vm sched (ParallelCleaningTask_ctor vm n u r))"
proof (rule run_invariant)
  show "cc_inv vm (ParallelCleaningTask_ctor vm n u r)"
    by (simp add: cc_inv_def cc_inv_A_init cc_inv_B_init cc_inv_S_init cc_inv_U_init)
       (simp add: cc_inv_Z_def cc_inv_Y_def returned_batches_def work_entry_def)
next
  fix s w
  assume "cc_inv vm s" "w < length (pcs s)"
  then show "cc_inv vm (exec vm w (pcs s ! w) s)"
    using d by (simp add: cc_inv_def cc_inv_A_exec cc_inv_B_exec cc_inv_S_exec cc_inv_U_exec
        cc_inv_Y_exec cc_inv_Z_exec)
qed

lemma tl_prefix_subset: "A = P @ zs \<Longrightarrow> set (tl P) \<subseteq> set (tl A)"
  by (cases P) auto

lemma distinct_tl_prefix: "distinct A \<Longrightarrow> A = P @ zs \<Longrightarrow> distinct (tl P)"
  by (cases P) auto

text \<open>
  C1. For every number of workers \<open>n \<ge> 1\<close> and every list of distinct alive nmethods, under
  every interleaving, once all workers have returned from \<open>CodeCacheUnloadingTask::work\<close>
  every alive nmethod has had \<open>do_unloading\<close> called exactly once (and no other nmethod
  has). \<open>MaxClaimNmethods\<close> is positive.
\<close>

theorem exactly_once_unload:
  assumes "distinct (alive_nmethods vm)" and "0 < MaxClaimNmethods vm" and "0 < n"
    and "s = run vm sched (ParallelCleaningTask_ctor vm n u r)"
    and "list_all returned_from_cc (pcs s)"
  shows "mset (unloaded_nmethods s) = mset (alive_nmethods vm)
    \<and> (\<forall>m. count_list (unloaded_nmethods s) m = (if m \<in> set (alive_nmethods vm) then 1 else 0))"
proof -
  have inv: "cc_inv vm s" using assms(1,4) by (simp add: cc_inv_run)
  have len: "length (pcs s) = n" using assms(4) by simp
  have ret: "\<forall>i < length (pcs s). returned_from_cc (pcs s ! i)"
    using assms(5) by (simp add: list_all_length)
  then have r0: "returned_from_cc (pcs s ! 0)" using len assms(3) by simp
  have "[] \<in> set (returned_batches s)"
    using inv r0 len assms(3) by (auto simp: cc_inv_def cc_inv_Z_def)
  then have cur: "claimed_prefix (alive_nmethods vm) (claimed_nmethod s) = alive_nmethods vm"
    using inv assms(2) by (simp add: cc_inv_def cc_inv_Y_def)
  have bat: "concat (returned_batches s) = tl (alive_nmethods vm)"
    using inv cur by (simp add: cc_inv_def cc_inv_B_def)
  have "cc_started (pcs s ! 0)" using r0 by (cases "pcs s ! 0") simp_all
  then have "first_nmethod s = None"
    using inv len assms(3) by (simp add: cc_inv_def cc_inv_S_def)
  then have sen: "sentinel_done vm s = sentinel vm" by (simp add: sentinel_done_def)
  have "\<forall>i < length (pcs s). pending (pcs s ! i) = []"
  proof (intro allI impI)
    fix i assume "i < length (pcs s)"
    then have "returned_from_cc (pcs s ! i)" using ret by simp
    then show "pending (pcs s ! i) = []" by (cases "pcs s ! i") simp_all
  qed
  then have pen: "held pending s = {#}" by (rule held_zero)
  have "mset (unloaded_nmethods s) = mset (tl (alive_nmethods vm)) + mset (sentinel vm)"
    using inv bat sen pen by (simp add: cc_inv_def cc_inv_U_def)
  also have "\<dots> = mset (alive_nmethods vm)"
    by (cases "alive_nmethods vm") (simp_all add: sentinel_def first_alive_def)
  finally have eq: "mset (unloaded_nmethods s) = mset (alive_nmethods vm)" .
  have "count_list (unloaded_nmethods s) m = (if m \<in> set (alive_nmethods vm) then 1 else 0)" for m
  proof -
    have "count_list (unloaded_nmethods s) m = count (mset (unloaded_nmethods s)) m"
      by (simp add: count_mset)
    also have "\<dots> = count (mset (alive_nmethods vm)) m" using eq by simp
    also have "\<dots> = (if m \<in> set (alive_nmethods vm) then 1 else 0)"
      using assms(1) by (simp add: distinct_count_atmost_1)
    finally show ?thesis .
  qed
  then show ?thesis using eq by simp
qed

theorem exactly_once_unload_witness:
  "distinct (alive_nmethods vm1) \<and> 0 < MaxClaimNmethods vm1
   \<and> list_all returned_from_cc (pcs pass1)
   \<and> mset (unloaded_nmethods pass1) = mset (alive_nmethods vm1)
   \<and> count_list (unloaded_nmethods pass1) 12 = 1
   \<and> list_all returned_from_cc (pcs pass3)
   \<and> mset (unloaded_nmethods pass3) = mset (alive_nmethods vm3)"
proof -
  have h1: "distinct (alive_nmethods vm1)" by (simp add: vm1_def)
  have h2: "0 < MaxClaimNmethods vm1" by (simp add: vm1_def)
  have h3: "list_all returned_from_cc (pcs pass1)" by code_simp
  have h4: "12 \<in> set (alive_nmethods vm1)" by (simp add: vm1_def)
  have g1: "distinct (alive_nmethods vm3)" by (simp add: vm3_def vm1_def)
  have g2: "0 < MaxClaimNmethods vm3" by (simp add: vm3_def vm1_def)
  have g3: "list_all returned_from_cc (pcs pass3)" by code_simp
  have c3: "mset (unloaded_nmethods pass3) = mset (alive_nmethods vm3)"
    using exactly_once_unload [OF g1 g2 _ pass3_def g3] by simp
  from exactly_once_unload [OF h1 h2 _ pass1_def h3] h4
  show ?thesis using h1 h2 h3 g3 c3 by simp
qed

text \<open>
  C2. With a positive batch bound, every batch returned by \<open>claim_nmethods\<close> has at most
  \<open>MaxClaimNmethods\<close> nmethods; no nmethod is returned twice; an empty batch is returned
  only when no alive nmethod follows the cursor the call advanced from, and by then the
  batches returned make up exactly the alive nmethods after the initial cursor; the same
  holds once all workers have returned.
\<close>

theorem claim_nmethods_partition:
  assumes "distinct (alive_nmethods vm)" and "0 < MaxClaimNmethods vm"
    and "s = run vm sched (ParallelCleaningTask_ctor vm n u r)"
  shows "list_all (\<lambda>fb. length (snd fb) \<le> nat (MaxClaimNmethods vm)
                       \<and> (snd fb = [] \<longrightarrow> no_alive_after vm (fst fb)))
            (pick batch_of (events s))
    \<and> distinct (concat (returned_batches s))
    \<and> set (concat (returned_batches s)) \<subseteq> set (tl (alive_nmethods vm))
    \<and> ([] \<in> set (returned_batches s) \<longrightarrow>
          concat (returned_batches s) = tl (alive_nmethods vm))
    \<and> (0 < n \<and> list_all returned_from_cc (pcs s) \<longrightarrow>
          set (concat (returned_batches s)) = set (tl (alive_nmethods vm)))"
proof -
  have inv: "cc_inv vm s" using assms(1,3) by (simp add: cc_inv_run)
  have len: "length (pcs s) = n" using assms(3) by simp
  have 1: "list_all (\<lambda>fb. length (snd fb) \<le> nat (MaxClaimNmethods vm)
                       \<and> (snd fb = [] \<longrightarrow> no_alive_after vm (fst fb)))
            (pick batch_of (events s))"
    unfolding list_all_iff
  proof
    fix fb assume "fb \<in> set (pick batch_of (events s))"
    then have "batch_ok vm fb" using inv by (simp add: cc_inv_def cc_inv_A_def)
    then obtain l where "valid_cursor vm (fst fb)" "claim_walk vm (fst fb) = (snd fb, l)"
      by (cases fb) auto
    from claim_walk_facts [OF assms(1) this] assms(2)
    show "length (snd fb) \<le> nat (MaxClaimNmethods vm)
       \<and> (snd fb = [] \<longrightarrow> no_alive_after vm (fst fb))" by simp
  qed
  obtain zs where zs: "alive_nmethods vm = claimed_prefix (alive_nmethods vm) (claimed_nmethod s) @ zs"
    using claimed_prefix_is_prefix by blast
  have B: "concat (returned_batches s) = tl (claimed_prefix (alive_nmethods vm) (claimed_nmethod s))"
    using inv by (simp add: cc_inv_def cc_inv_B_def)
  have 2: "distinct (concat (returned_batches s))"
    using B distinct_tl_prefix [OF assms(1) zs] by simp
  have 3: "set (concat (returned_batches s)) \<subseteq> set (tl (alive_nmethods vm))"
    using B tl_prefix_subset [OF zs] by simp
  have 4: "concat (returned_batches s) = tl (alive_nmethods vm)" if "[] \<in> set (returned_batches s)"
  proof -
    have "claimed_prefix (alive_nmethods vm) (claimed_nmethod s) = alive_nmethods vm"
      using inv assms(2) that by (simp add: cc_inv_def cc_inv_Y_def)
    then show ?thesis using B by simp
  qed
  have 5: "set (concat (returned_batches s)) = set (tl (alive_nmethods vm))"
    if "0 < n \<and> list_all returned_from_cc (pcs s)"
  proof -
    have "returned_from_cc (pcs s ! 0)" using that len by (simp add: list_all_length)
    then have "[] \<in> set (returned_batches s)"
      using inv that len by (auto simp: cc_inv_def cc_inv_Z_def)
    then show ?thesis using 4 by simp
  qed
  show ?thesis using 1 2 3 4 5 by blast
qed

theorem claim_nmethods_partition_witness:
  "distinct (alive_nmethods vm1) \<and> 0 < MaxClaimNmethods vm1
   \<and> list_all returned_from_cc (pcs pass1)
   \<and> [] \<in> set (returned_batches pass1)
   \<and> distinct (concat (returned_batches pass1))
   \<and> concat (returned_batches pass1) = tl (alive_nmethods vm1)
   \<and> set (concat (returned_batches pass1)) = set (tl (alive_nmethods vm1))
   \<and> [] \<in> set (returned_batches pass3)
   \<and> concat (returned_batches pass3) = tl (alive_nmethods vm3)"
proof -
  have h1: "distinct (alive_nmethods vm1)" by (simp add: vm1_def)
  have h2: "0 < MaxClaimNmethods vm1" by (simp add: vm1_def)
  have h3: "list_all returned_from_cc (pcs pass1)" by code_simp
  have h4: "[] \<in> set (returned_batches pass1)" by code_simp
  have h5: "(0::nat) < 2" by simp
  have g1: "distinct (alive_nmethods vm3)" by (simp add: vm3_def vm1_def)
  have g2: "0 < MaxClaimNmethods vm3" by (simp add: vm3_def vm1_def)
  have g4: "[] \<in> set (returned_batches pass3)" by code_simp
  have c3: "concat (returned_batches pass3) = tl (alive_nmethods vm3)"
    using claim_nmethods_partition [OF g1 g2 pass3_def] g4 by blast
  from claim_nmethods_partition [OF h1 h2 pass1_def]
  show ?thesis using h1 h2 h3 h4 h5 g4 c3 by blast
qed

section \<open>The JVMCI claim flag\<close>

lemma length_filter_update':
  "i < length xs \<Longrightarrow>
     length (filter P (xs[i := y]))
       = length (filter P xs) + (if P y then 1 else 0) - (if P (xs ! i) then 1 else 0)"
  using length_filter_update [of i xs P y] by (simp split: if_splits)

lemma length_filter_pos: "i < length xs \<Longrightarrow> P (xs ! i) \<Longrightarrow> 0 < length (filter P xs)"
  by (metis filter_empty_conv length_greater_0_conv nth_mem)

lemma gate_simps:
  "gate_inv 0 R \<Longrightarrow> gate_inv 1 (R @ [True])"
  "gate_inv f R \<Longrightarrow> f \<noteq> 0 \<Longrightarrow> gate_inv f (R @ [False])"
  "gate_inv f R \<Longrightarrow> f \<noteq> 0 \<Longrightarrow> f = 1"
  by (auto simp: gate_inv_def)

lemma jvmci_gate_exec:
  assumes inv: "gate_inv (cleaning_claimed s) (jvmci_claims s)" and w: "w < length (pcs s)"
  shows "gate_inv (cleaning_claimed (exec vm w (pcs s ! w) s)) (jvmci_claims (exec vm w (pcs s ! w) s))"
proof (cases "pcs s ! w")
  case (PC_cc_unload ms)
  then show ?thesis using inv by (cases ms) (simp_all add: jvmci_claims_def)
qed (use inv in \<open>auto simp: jvmci_claims_def cmpxchg_def gate_simps
        split: option.splits list.splits prod.splits\<close>)

lemma jvmci_inv_0_exec:
  assumes inv: "jvmci_inv_0 vm s" and w: "w < length (pcs s)"
  shows "jvmci_inv_0 vm (exec vm w (pcs s ! w) s)"
proof (cases "pcs s ! w")
  case (PC_cc_unload ms)
  then show ?thesis using inv w
    by (cases ms) (auto simp: jvmci_inv_0_def jvmci_on_def jvmci_claims_def jvmci_unloadings_def nth_list_update)
next
  case PC_cc_work
  then show ?thesis using inv w
    by (cases "w = 0"; cases "first_nmethod s")
       (auto simp: jvmci_inv_0_def jvmci_on_def jvmci_claims_def jvmci_unloadings_def nth_list_update
          split: if_splits)
next
  case PC_jvmci_work
  then show ?thesis using inv w
    by (auto simp: jvmci_inv_0_def jvmci_on_def jvmci_claims_def jvmci_unloadings_def nth_list_update)
next
  case PC_jvmci_cmpxchg
  then show ?thesis using inv w
    by (auto simp: jvmci_inv_0_def jvmci_on_def jvmci_claims_def jvmci_unloadings_def nth_list_update
          cmpxchg_def)
next
  case PC_jvmci_do_unloading
  then show ?thesis using inv w
    by (auto simp: jvmci_inv_0_def jvmci_on_def jvmci_claims_def jvmci_unloadings_def nth_list_update)
qed (use inv w in \<open>auto simp: jvmci_inv_0_def jvmci_on_def jvmci_claims_def jvmci_unloadings_def
        cmpxchg_def nth_list_update split: option.splits list.splits prod.splits if_splits\<close>)

lemma jvmci_inv_N_exec:
  assumes Z: "jvmci_inv_0 vm s" and inv: "jvmci_inv_N vm s" and w: "w < length (pcs s)"
  shows "jvmci_inv_N vm (exec vm w (pcs s ! w) s)"
proof (cases "pcs s ! w")
  case (PC_cc_unload ms)
  then show ?thesis using inv w
    by (cases ms) (simp_all add: jvmci_inv_N_def jvmci_on_def jvmci_claims_def length_filter_update')
next
  case PC_cc_work
  then show ?thesis using inv w
    by (cases "w = 0"; cases "first_nmethod s")
       (simp_all add: jvmci_inv_N_def jvmci_on_def jvmci_claims_def length_filter_update')
next
  case PC_jvmci_work
  then show ?thesis using inv w Z
    by (simp add: jvmci_inv_N_def jvmci_inv_0_def jvmci_on_def jvmci_claims_def length_filter_update')
qed (use inv w in \<open>simp_all add: jvmci_inv_N_def jvmci_on_def jvmci_claims_def
        cmpxchg_def length_filter_update' split: option.splits list.splits prod.splits\<close>)

lemma jvmci_inv_U_exec:
  assumes G: "gate_inv (cleaning_claimed s) (jvmci_claims s)"
    and inv: "jvmci_inv_U s" and w: "w < length (pcs s)"
  shows "jvmci_inv_U (exec vm w (pcs s ! w) s)"
proof (cases "pcs s ! w")
  case (PC_cc_unload ms)
  then show ?thesis using inv w
    by (cases ms) (simp_all add: jvmci_inv_U_def jvmci_unloadings_def jvmci_claims_def length_filter_update')
next
  case PC_jvmci_do_unloading
  then have "0 < length (filter (\<lambda>p. p = PC_jvmci_do_unloading) (pcs s))"
    using length_filter_pos [OF w, of "\<lambda>p. p = PC_jvmci_do_unloading"] by simp
  then obtain k where "length (filter (\<lambda>p. p = PC_jvmci_do_unloading) (pcs s)) = Suc k"
    by (auto simp: gr0_conv_Suc)
  then show ?thesis using inv w PC_jvmci_do_unloading
    by (simp add: jvmci_inv_U_def jvmci_unloadings_def jvmci_claims_def length_filter_update')
next
  case PC_cc_work
  then show ?thesis using inv w
    by (cases "w = 0"; cases "first_nmethod s")
       (simp_all add: jvmci_inv_U_def jvmci_unloadings_def jvmci_claims_def length_filter_update')
qed (use inv w in \<open>auto simp: jvmci_inv_U_def jvmci_unloadings_def jvmci_claims_def
        cmpxchg_def length_filter_update' split: option.splits list.splits prod.splits\<close>)

lemma jvmci_inv_W_exec:
  assumes inv: "jvmci_inv_W s" and w: "w < length (pcs s)"
  shows "jvmci_inv_W (exec vm w (pcs s ! w) s)"
proof (cases "pcs s ! w")
  case (PC_cc_unload ms)
  then show ?thesis using inv w
    by (cases ms) (auto simp: jvmci_inv_W_def nth_list_update split: if_splits)
next
  case PC_cc_work
  then show ?thesis using inv w
    by (cases "w = 0"; cases "first_nmethod s")
       (auto simp: jvmci_inv_W_def nth_list_update split: if_splits)
qed (use inv w in \<open>auto simp: jvmci_inv_W_def cmpxchg_def nth_list_update
        split: option.splits list.splits prod.splits if_splits\<close>)

section \<open>Klass cleaning\<close>

lemma tree_gate_exec:
  assumes inv: "gate_inv (clean_klass_tree_claimed s) (tree_claims s)" and w: "w < length (pcs s)"
  shows "gate_inv (clean_klass_tree_claimed (exec vm w (pcs s ! w) s))
           (tree_claims (exec vm w (pcs s ! w) s))"
proof (cases "pcs s ! w")
  case (PC_cc_unload ms)
  then show ?thesis using inv by (cases ms) (simp_all add: tree_claims_def)
qed (use inv in \<open>auto simp: tree_claims_def cmpxchg_def gate_simps
        split: option.splits list.splits prod.splits\<close>)

lemma tree_inv_N_exec:
  assumes inv: "tree_inv_N s" and w: "w < length (pcs s)"
  shows "tree_inv_N (exec vm w (pcs s ! w) s)"
proof (cases "pcs s ! w")
  case (PC_cc_unload ms)
  then show ?thesis using inv w
    by (cases ms) (simp_all add: tree_inv_N_def tree_claims_def length_filter_update')
next
  case PC_cc_work
  then show ?thesis using inv w
    by (cases "w = 0"; cases "first_nmethod s")
       (simp_all add: tree_inv_N_def tree_claims_def length_filter_update')
qed (use inv w in \<open>simp_all add: tree_inv_N_def tree_claims_def
        cmpxchg_def length_filter_update' split: option.splits list.splits prod.splits\<close>)

lemma tree_inv_U_exec:
  assumes inv: "tree_inv_U s" and w: "w < length (pcs s)"
  shows "tree_inv_U (exec vm w (pcs s ! w) s)"
proof (cases "pcs s ! w")
  case (PC_cc_unload ms)
  then show ?thesis using inv w
    by (cases ms) (simp_all add: tree_inv_U_def tree_cleanings_def tree_claims_def length_filter_update')
next
  case PC_clean_subklass_tree
  then have "0 < length (filter (\<lambda>p. p = PC_clean_subklass_tree) (pcs s))"
    using length_filter_pos [OF w, of "\<lambda>p. p = PC_clean_subklass_tree"] by simp
  then obtain k where "length (filter (\<lambda>p. p = PC_clean_subklass_tree) (pcs s)) = Suc k"
    by (auto simp: gr0_conv_Suc)
  then show ?thesis using inv w PC_clean_subklass_tree
    by (simp add: tree_inv_U_def tree_cleanings_def tree_claims_def length_filter_update')
next
  case PC_cc_work
  then show ?thesis using inv w
    by (cases "w = 0"; cases "first_nmethod s")
       (simp_all add: tree_inv_U_def tree_cleanings_def tree_claims_def length_filter_update')
qed (use inv w in \<open>auto simp: tree_inv_U_def tree_cleanings_def tree_claims_def
        cmpxchg_def length_filter_update' split: option.splits list.splits prod.splits\<close>)

lemma klass_inv_0_exec:
  assumes inv: "klass_inv_0 vm s" and w: "w < length (pcs s)"
  shows "klass_inv_0 vm (exec vm w (pcs s ! w) s)"
proof (cases "pcs s ! w")
  case (PC_cc_unload ms)
  then show ?thesis using inv w
    by (cases ms) (auto simp: klass_inv_0_def klass_events_def nth_list_update split: if_splits)
next
  case PC_cc_work
  then show ?thesis using inv w
    by (cases "w = 0"; cases "first_nmethod s")
       (auto simp: klass_inv_0_def klass_events_def nth_list_update split: if_splits)
qed (use inv w in \<open>auto simp: klass_inv_0_def klass_events_def cmpxchg_def nth_list_update
        split: option.splits list.splits prod.splits if_splits\<close>)

lemma klass_inv_L1_exec:
  assumes inv: "klass_inv_L1 vm s" and w: "w < length (pcs s)"
  shows "klass_inv_L1 vm (exec vm w (pcs s ! w) s)"
proof (cases "pcs s ! w")
  case (PC_cc_unload ms)
  then show ?thesis using inv by (cases ms) (simp_all add: klass_inv_L1_def claimed_klasses_def)
next
  case PC_claim_next_klass
  then show ?thesis using inv
    by (cases "klass_iterator s") (auto simp: klass_inv_L1_def claimed_klasses_def)
qed (use inv in \<open>simp_all add: klass_inv_L1_def claimed_klasses_def cmpxchg_def
        split: option.splits prod.splits\<close>)

lemma klass_inv_L2_exec:
  assumes inv: "klass_inv_L2 s" and w: "w < length (pcs s)"
  shows "klass_inv_L2 (exec vm w (pcs s ! w) s)"
proof (cases "pcs s ! w")
  case (PC_cc_unload ms)
  then show ?thesis using inv held_same [OF w, where g = pending_klass]
    by (cases ms) (simp_all add: klass_inv_L2_def claimed_klasses_def cleaned_klasses_def)
next
  case PC_claim_next_klass
  show ?thesis
  proof (cases "klass_iterator s")
    case Nil
    then show ?thesis using inv held_same [OF w, where g = pending_klass] PC_claim_next_klass
      by (simp add: klass_inv_L2_def claimed_klasses_def cleaned_klasses_def)
  next
    case (Cons k rest)
    have "held pending_klass (goto w (PC_clean_klass k) s) = held pending_klass s + {#k#}"
      using held_goto [OF w, where g = pending_klass and p = "PC_clean_klass k"] PC_claim_next_klass
      by simp
    then show ?thesis using inv held_same [OF w, where g = pending_klass] PC_claim_next_klass Cons
      by (simp add: klass_inv_L2_def claimed_klasses_def cleaned_klasses_def)
  qed
next
  case (PC_clean_klass k)
  then have "held pending_klass s = held pending_klass (goto w PC_claim_next_klass s) + {#k#}"
    using held_goto [OF w, where g = pending_klass and p = PC_claim_next_klass] by simp
  then show ?thesis using inv PC_clean_klass
    by (simp add: klass_inv_L2_def claimed_klasses_def cleaned_klasses_def)
next
  case PC_cc_work
  then show ?thesis using inv held_same [OF w, where g = pending_klass]
    by (cases "w = 0"; cases "first_nmethod s")
       (simp_all add: klass_inv_L2_def claimed_klasses_def cleaned_klasses_def)
qed (use inv held_same [OF w, where g = pending_klass] in
      \<open>simp_all add: klass_inv_L2_def claimed_klasses_def cleaned_klasses_def cmpxchg_def
         split: prod.splits\<close>)

lemma klass_inv_L3_exec:
  assumes inv: "klass_inv_L3 s" and w: "w < length (pcs s)"
  shows "klass_inv_L3 (exec vm w (pcs s ! w) s)"
proof (cases "pcs s ! w")
  case (PC_cc_unload ms)
  then show ?thesis using inv w
    by (cases ms) (auto simp: klass_inv_L3_def nth_list_update split: if_splits)
next
  case PC_cc_work
  then show ?thesis using inv w
    by (cases "w = 0"; cases "first_nmethod s")
       (auto simp: klass_inv_L3_def nth_list_update split: if_splits)
qed (use inv w in \<open>auto simp: klass_inv_L3_def cmpxchg_def nth_list_update
        split: option.splits list.splits prod.splits if_splits\<close>)

section \<open>The claim flags and the class iterator, all steps together\<close>

lemma jvmci_inv_run: "jvmci_inv vm (run vm sched (ParallelCleaningTask_ctor vm n u r))"
proof (rule run_invariant)
  show "jvmci_inv vm (ParallelCleaningTask_ctor vm n u r)"
    by (simp add: jvmci_inv_def gate_inv_def jvmci_inv_0_def jvmci_inv_N_def jvmci_inv_U_def
          jvmci_inv_W_def jvmci_on_def jvmci_claims_def jvmci_unloadings_def work_entry_def
          StringDedupCleaningTask_ctor_def)
next
  fix s w
  assume "jvmci_inv vm s" "w < length (pcs s)"
  then show "jvmci_inv vm (exec vm w (pcs s ! w) s)"
    by (simp add: jvmci_inv_def jvmci_gate_exec jvmci_inv_0_exec jvmci_inv_N_exec
          jvmci_inv_U_exec jvmci_inv_W_exec)
qed

lemma klass_inv_run: "klass_inv vm (run vm sched (ParallelCleaningTask_ctor vm n u r))"
proof (rule run_invariant)
  have "held pending_klass (ParallelCleaningTask_ctor vm n u r) = {#}"
    by (rule held_zero) (simp add: work_entry_def)
  then show "klass_inv vm (ParallelCleaningTask_ctor vm n u r)"
    by (simp add: klass_inv_def gate_inv_def tree_inv_N_def tree_inv_U_def klass_inv_0_def
          klass_inv_L1_def klass_inv_L2_def klass_inv_L3_def tree_claims_def tree_cleanings_def
          klass_events_def claimed_klasses_def cleaned_klasses_def work_entry_def)
next
  fix s w
  assume "klass_inv vm s" "w < length (pcs s)"
  then show "klass_inv vm (exec vm w (pcs s ! w) s)"
    by (simp add: klass_inv_def tree_gate_exec tree_inv_N_exec tree_inv_U_exec klass_inv_0_exec
          klass_inv_L1_exec klass_inv_L2_exec klass_inv_L3_exec)
qed

lemma count_list_bool: "count_list R True + count_list R False = length R"
  by (induction R) auto

lemma all_done_filter:
  assumes "all_done s" and "P PC_done"
  shows "length (filter P (pcs s)) = length (pcs s)"
proof -
  have "filter P (pcs s) = pcs s" using assms by (auto simp: all_done_def filter_id_conv)
  then show ?thesis by simp
qed

lemma all_done_nth: "all_done s \<Longrightarrow> i < length (pcs s) \<Longrightarrow> pcs s ! i = PC_done"
  by (simp add: all_done_def)

lemma filter_none:
  "\<forall>i < length xs. \<not> P (xs ! i) \<Longrightarrow> length (filter P xs) = 0"
  by (auto simp: filter_empty_conv in_set_conv_nth)

text \<open>
  C3. In every interleaving, the answers of \<open>claim_clean_klass_tree_task\<close> given so far are
  none, or exactly one \<open>true\<close> and \<open>false\<close> for all the others, and so are the answers of
  \<open>claim_cleaning_task\<close>. Every worker whose call has returned got one answer: when
  unloading occurred (and, for JVMCI, the capability is compiled in and enabled) there are
  as many answers as callers, and once all \<open>n \<ge> 1\<close> workers are done exactly one of the
  \<open>n\<close> answers is \<open>true\<close> and \<open>n - 1\<close> are \<open>false\<close>.
\<close>

theorem single_claim_gate:
  assumes "s = run vm sched (ParallelCleaningTask_ctor vm n u r)"
  shows "(tree_claims s = [] \<or>
            count_list (tree_claims s) True = 1
            \<and> count_list (tree_claims s) False + 1 = length (tree_claims s))
    \<and> (jvmci_claims s = [] \<or>
            count_list (jvmci_claims s) True = 1
            \<and> count_list (jvmci_claims s) False + 1 = length (jvmci_claims s))
    \<and> (u \<longrightarrow> length (tree_claims s) = length (filter tree_claim_returned (pcs s)))
    \<and> (INCLUDE_JVMCI vm \<and> u \<and> EnableJVMCI vm \<longrightarrow>
          length (jvmci_claims s) = length (filter jvmci_claim_returned (pcs s)))
    \<and> (u \<and> all_done s \<longrightarrow> length (tree_claims s) = n)
    \<and> (INCLUDE_JVMCI vm \<and> u \<and> EnableJVMCI vm \<and> all_done s \<longrightarrow> length (jvmci_claims s) = n)
    \<and> (u \<and> 0 < n \<and> all_done s \<longrightarrow>
          count_list (tree_claims s) True = 1 \<and> count_list (tree_claims s) False = n - 1)
    \<and> (INCLUDE_JVMCI vm \<and> u \<and> EnableJVMCI vm \<and> 0 < n \<and> all_done s \<longrightarrow>
          count_list (jvmci_claims s) True = 1 \<and> count_list (jvmci_claims s) False = n - 1)"
proof -
  have K: "klass_inv vm s" and J: "jvmci_inv vm s"
    using assms by (simp_all add: klass_inv_run jvmci_inv_run)
  have len: "length (pcs s) = n" and uo: "unloading_occurred s = u" using assms by simp_all
  have 1: "tree_claims s = [] \<or>
            count_list (tree_claims s) True = 1
            \<and> count_list (tree_claims s) False + 1 = length (tree_claims s)"
    using K count_list_bool [of "tree_claims s"] by (auto simp: klass_inv_def gate_inv_def)
  have 2: "jvmci_claims s = [] \<or>
            count_list (jvmci_claims s) True = 1
            \<and> count_list (jvmci_claims s) False + 1 = length (jvmci_claims s)"
    using J count_list_bool [of "jvmci_claims s"] by (auto simp: jvmci_inv_def gate_inv_def)
  have 3: "u \<longrightarrow> length (tree_claims s) = length (filter tree_claim_returned (pcs s))"
    using K uo by (simp add: klass_inv_def tree_inv_N_def)
  have 4: "INCLUDE_JVMCI vm \<and> u \<and> EnableJVMCI vm \<longrightarrow>
          length (jvmci_claims s) = length (filter jvmci_claim_returned (pcs s))"
    using J uo by (simp add: jvmci_inv_def jvmci_inv_N_def jvmci_on_def)
  have 5: "u \<and> all_done s \<longrightarrow> length (tree_claims s) = n"
    using 3 len all_done_filter [of s tree_claim_returned] by simp
  have 6: "INCLUDE_JVMCI vm \<and> u \<and> EnableJVMCI vm \<and> all_done s \<longrightarrow> length (jvmci_claims s) = n"
    using 4 len all_done_filter [of s jvmci_claim_returned] by simp
  have 7: "count_list (tree_claims s) True = 1 \<and> count_list (tree_claims s) False = n - 1"
    if "u \<and> 0 < n \<and> all_done s"
  proof -
    have "length (tree_claims s) = n" using 5 that by simp
    moreover from this have "tree_claims s \<noteq> []" using that by auto
    ultimately show ?thesis using 1 by auto
  qed
  have 8: "count_list (jvmci_claims s) True = 1 \<and> count_list (jvmci_claims s) False = n - 1"
    if "INCLUDE_JVMCI vm \<and> u \<and> EnableJVMCI vm \<and> 0 < n \<and> all_done s"
  proof -
    have "length (jvmci_claims s) = n" using 6 that by simp
    moreover from this have "jvmci_claims s \<noteq> []" using that by auto
    ultimately show ?thesis using 2 by auto
  qed
  show ?thesis using 1 2 3 4 5 6 7 8 by blast
qed

theorem single_claim_gate_witness:
  "all_done pass1
   \<and> tree_claims pass1 = [True, False] \<and> jvmci_claims pass1 = [True, False]
   \<and> count_list (tree_claims pass1) True = 1 \<and> count_list (jvmci_claims pass1) True = 1
   \<and> length (tree_claims pass1) = 2 \<and> length (jvmci_claims pass1) = 2"
proof -
  have h1: "all_done pass1" by code_simp
  have h2: "tree_claims pass1 = [True, False]" by code_simp
  have h3: "jvmci_claims pass1 = [True, False]" by code_simp
  have h4: "INCLUDE_JVMCI vm1 \<and> True \<and> EnableJVMCI vm1 \<and> (0::nat) < 2"
    by (simp add: vm1_def)
  from single_claim_gate [OF pass1_def] h1 h2 h3 h4
  show ?thesis by simp
qed

text \<open>
  C9. \<open>JVMCICleaningTask::work\<close> does nothing unless unloading occurred and \<open>EnableJVMCI\<close> is
  set: the claim is not attempted, the flag stays 0, \<open>JVMCI::do_unloading\<close> is not called.
  When both hold, every caller that has passed the claim got an answer, \<open>JVMCI::do_unloading\<close>
  is called at most once, only by a worker whose claim returned \<open>true\<close>, and exactly once
  (with \<open>unloading_occurred\<close>, that is \<open>true\<close>) when all workers have left the task.
\<close>

theorem jvmci_cleaning_once:
  assumes "s = run vm sched (ParallelCleaningTask_ctor vm n u r)"
  shows "(\<not> (u \<and> EnableJVMCI vm) \<longrightarrow>
            jvmci_claims s = [] \<and> jvmci_unloadings s = [] \<and> cleaning_claimed s = 0)
    \<and> (INCLUDE_JVMCI vm \<and> u \<and> EnableJVMCI vm \<longrightarrow>
          length (jvmci_claims s) = length (filter jvmci_claim_returned (pcs s)))
    \<and> length (jvmci_unloadings s) \<le> 1
    \<and> (\<forall>i b. (GangWorker i, JVMCI_do_unloading b) \<in> set (trace s) \<longrightarrow>
               (GangWorker i, JVMCI_claim_returned True) \<in> set (trace s))
    \<and> (INCLUDE_JVMCI vm \<and> u \<and> EnableJVMCI vm \<and> 0 < n \<and> list_all returned_from_jvmci (pcs s) \<longrightarrow>
          jvmci_unloadings s = [True])"
proof -
  have J: "jvmci_inv vm s" using assms by (simp add: jvmci_inv_run)
  have len: "length (pcs s) = n" and uo: "unloading_occurred s = u" using assms by simp_all
  have G: "gate_inv (cleaning_claimed s) (jvmci_claims s)" using J by (simp add: jvmci_inv_def)
  have U: "length (jvmci_unloadings s) + length (filter (\<lambda>p. p = PC_jvmci_do_unloading) (pcs s))
        = count_list (jvmci_claims s) True"
    and V: "\<forall>b \<in> set (jvmci_unloadings s). b = u"
    using J uo by (auto simp: jvmci_inv_def jvmci_inv_U_def)
  have 1: "\<not> (u \<and> EnableJVMCI vm) \<longrightarrow>
            jvmci_claims s = [] \<and> jvmci_unloadings s = [] \<and> cleaning_claimed s = 0"
    using J uo by (auto simp: jvmci_inv_def jvmci_inv_0_def jvmci_on_def)
  have 2: "INCLUDE_JVMCI vm \<and> u \<and> EnableJVMCI vm \<longrightarrow>
          length (jvmci_claims s) = length (filter jvmci_claim_returned (pcs s))"
    using J uo by (simp add: jvmci_inv_def jvmci_inv_N_def jvmci_on_def)
  have c: "count_list (jvmci_claims s) True \<le> 1" using G by (auto simp: gate_inv_def)
  then have 3: "length (jvmci_unloadings s) \<le> 1" using U by simp
  have 4: "\<forall>i b. (GangWorker i, JVMCI_do_unloading b) \<in> set (trace s) \<longrightarrow>
               (GangWorker i, JVMCI_claim_returned True) \<in> set (trace s)"
    using J by (auto simp: jvmci_inv_def jvmci_inv_W_def)
  have 5: "jvmci_unloadings s = [True]"
    if h: "INCLUDE_JVMCI vm \<and> u \<and> EnableJVMCI vm \<and> 0 < n \<and> list_all returned_from_jvmci (pcs s)"
  proof -
    have all: "\<forall>i < length (pcs s). returned_from_jvmci (pcs s ! i)"
      using h by (simp add: list_all_length)
    have "\<forall>i < length (pcs s). jvmci_claim_returned (pcs s ! i)"
    proof (intro allI impI)
      fix i assume "i < length (pcs s)"
      then have "returned_from_jvmci (pcs s ! i)" using all by simp
      then show "jvmci_claim_returned (pcs s ! i)" by (cases "pcs s ! i") simp_all
    qed
    then have "filter jvmci_claim_returned (pcs s) = pcs s"
      by (auto simp: filter_id_conv in_set_conv_nth)
    then have "length (jvmci_claims s) = n" using 2 h len by simp
    then have "jvmci_claims s \<noteq> []" using h by auto
    then have one: "count_list (jvmci_claims s) True = 1" using G by (auto simp: gate_inv_def)
    have "\<forall>i < length (pcs s). \<not> (pcs s ! i = PC_jvmci_do_unloading)"
    proof (intro allI impI)
      fix i assume "i < length (pcs s)"
      then have "returned_from_jvmci (pcs s ! i)" using all by simp
      then show "\<not> (pcs s ! i = PC_jvmci_do_unloading)" by (cases "pcs s ! i") simp_all
    qed
    then have "length (filter (\<lambda>p. p = PC_jvmci_do_unloading) (pcs s)) = 0"
      by (rule filter_none)
    then have "length (jvmci_unloadings s) = 1" using U one by simp
    then obtain b where b: "jvmci_unloadings s = [b]"
      by (cases "jvmci_unloadings s") auto
    then have "b = u" using V by simp
    then show ?thesis using b h by simp
  qed
  show ?thesis using 1 2 3 4 5 by blast
qed

theorem jvmci_cleaning_once_witness:
  "list_all returned_from_jvmci (pcs pass1) \<and> jvmci_unloadings pass1 = [True]
   \<and> (GangWorker 1, JVMCI_do_unloading True) \<in> set (trace pass1)
   \<and> (GangWorker 1, JVMCI_claim_returned True) \<in> set (trace pass1)
   \<and> jvmci_claims pass2 = [] \<and> jvmci_unloadings pass2 = [] \<and> cleaning_claimed pass2 = 0"
proof -
  have h1: "list_all returned_from_jvmci (pcs pass1)" by code_simp
  have h2: "INCLUDE_JVMCI vm1 \<and> True \<and> EnableJVMCI vm1 \<and> (0::nat) < 2" by (simp add: vm1_def)
  have h3: "(GangWorker 1, JVMCI_do_unloading True) \<in> set (trace pass1)" by code_simp
  note a = jvmci_cleaning_once [OF pass1_def]
  note b = jvmci_cleaning_once [OF pass2_def]
  have c1: "jvmci_unloadings pass1 = [True]" using a h1 h2 by simp
  have c2: "(GangWorker 1, JVMCI_claim_returned True) \<in> set (trace pass1)"
    using a h3 by blast
  have c3: "jvmci_claims pass2 = [] \<and> jvmci_unloadings pass2 = [] \<and> cleaning_claimed pass2 = 0"
    using b by simp
  show ?thesis using h1 h3 c1 c2 c3 by simp
qed

section \<open>The work left decreases\<close>

lemma length_upto_incl: "length (upto_incl A x) \<le> length A"
  by (induction A) auto

lemma last_upto_incl: "x \<in> set A \<Longrightarrow> last (upto_incl A x) = x"
  by (induction A) (auto simp: upto_incl_nonempty)

lemma phi_step:
  assumes d: "distinct (alive_nmethods vm)" and f: "valid_cursor vm f"
    and bl: "claim_walk vm f = (b, l)"
  shows "phi vm l + length b \<le> phi vm f \<and> (l = f \<or> phi vm l < phi vm f)"
proof (cases f)
  case None
  then show ?thesis using bl by simp
next
  case (Some m)
  then have m: "m \<in> set (alive_nmethods vm)" using f by (simp add: valid_cursor_def)
  have l: "valid_cursor vm l"
    and pre: "claimed_prefix (alive_nmethods vm) l = upto_incl (alive_nmethods vm) m @ b"
    using claim_walk_facts [OF d f bl] Some by (simp_all add: claimed_prefix_def)
  show ?thesis
  proof (cases l)
    case None
    then have "alive_nmethods vm = upto_incl (alive_nmethods vm) m @ b"
      using pre by (simp add: claimed_prefix_def)
    then have "length (alive_nmethods vm) = length (upto_incl (alive_nmethods vm) m) + length b"
      by (metis length_append)
    then show ?thesis using None Some by (simp add: phi_def)
  next
    case (Some z)
    then have z: "z \<in> set (alive_nmethods vm)" using l by (simp add: valid_cursor_def)
    have eq: "upto_incl (alive_nmethods vm) z = upto_incl (alive_nmethods vm) m @ b"
      using pre Some by (simp add: claimed_prefix_def)
    then have lz: "length (upto_incl (alive_nmethods vm) z)
        = length (upto_incl (alive_nmethods vm) m) + length b"
      by (metis length_append)
    have "length (upto_incl (alive_nmethods vm) z) \<le> length (alive_nmethods vm)"
      by (rule length_upto_incl)
    then have sum: "phi vm l + length b = phi vm f"
      using lz Some \<open>f = Some m\<close> by (simp add: phi_def)
    have "l = f" if "b = []"
    proof -
      have "last (upto_incl (alive_nmethods vm) z) = last (upto_incl (alive_nmethods vm) m)"
        using eq that by simp
      then have "z = m" using last_upto_incl [OF z] last_upto_incl [OF m] by simp
      then show ?thesis using Some \<open>f = Some m\<close> by simp
    qed
    moreover have "phi vm l < phi vm f" if "b \<noteq> []"
    proof -
      have "0 < length b" using that by simp
      then show ?thesis using sum by linarith
    qed
    ultimately show ?thesis using sum by (cases "b = []") simp_all
  qed
qed

lemma weight_mono:
  "L' \<le> L \<Longrightarrow> (c' = c \<and> F' = F) \<or> F' < F \<Longrightarrow> weight L' F' c' q \<le> weight L F c q"
  by (cases q) auto

lemma sum_list_decrease:
  fixes g g' :: "'a \<Rightarrow> nat"
  assumes "w < length xs"
    and "\<forall>i < length xs. i \<noteq> w \<longrightarrow> g' (xs ! i) \<le> g (xs ! i)"
    and "g' y < g (xs ! w)"
  shows "sum_list (map g' (xs[w := y])) < sum_list (map g xs)"
  using assms
proof (induction xs arbitrary: w)
  case Nil
  then show ?case by simp
next
  case (Cons x xs)
  show ?case
  proof (cases w)
    case 0
    have "\<forall>z \<in> set xs. g' z \<le> g z"
    proof
      fix z assume "z \<in> set xs"
      then obtain i where "i < length xs" "xs ! i = z" by (auto simp: in_set_conv_nth)
      then show "g' z \<le> g z" using Cons.prems(2) [rule_format, of "Suc i"] 0 by simp
    qed
    then have "sum_list (map g' xs) \<le> sum_list (map g xs)" by (simp add: sum_list_mono)
    then show ?thesis using 0 Cons.prems(3) by simp
  next
    case (Suc j)
    have 1: "j < length xs" using Cons.prems(1) Suc by simp
    have 2: "\<forall>i < length xs. i \<noteq> j \<longrightarrow> g' (xs ! i) \<le> g (xs ! i)"
    proof (intro allI impI)
      fix i assume "i < length xs" "i \<noteq> j"
      then show "g' (xs ! i) \<le> g (xs ! i)"
        using Cons.prems(2) [rule_format, of "Suc i"] Suc by simp
    qed
    have 3: "g' y < g (xs ! j)" using Cons.prems(3) Suc by simp
    have "g' x \<le> g x" using Cons.prems(2) [rule_format, of 0] Suc by simp
    then show ?thesis using Cons.IH [OF 1 2 3] Suc by simp
  qed
qed

lemma remaining_work_goto:
  assumes w: "w < length (pcs s)"
    and L: "length (klass_iterator s') \<le> length (klass_iterator s)"
    and F: "(claimed_nmethod s' = claimed_nmethod s) \<or> phi vm (claimed_nmethod s') < phi vm (claimed_nmethod s)"
    and p: "pcs s' = pcs s"
    and lt: "weight (length (klass_iterator s')) (phi vm (claimed_nmethod s')) (claimed_nmethod s') q
               < weight (length (klass_iterator s)) (phi vm (claimed_nmethod s)) (claimed_nmethod s) (pcs s ! w)"
  shows "remaining_work vm (goto w q s') < remaining_work vm s"
proof -
  have "\<forall>i < length (pcs s). i \<noteq> w \<longrightarrow>
      weight (length (klass_iterator s')) (phi vm (claimed_nmethod s')) (claimed_nmethod s') (pcs s ! i)
        \<le> weight (length (klass_iterator s)) (phi vm (claimed_nmethod s)) (claimed_nmethod s) (pcs s ! i)"
    using L F by (auto intro!: weight_mono)
  from sum_list_decrease [OF w this lt]
  show ?thesis using p by (simp add: remaining_work_def)
qed

lemma remaining_work_decreases:
  assumes d: "distinct (alive_nmethods vm)" and A: "cc_inv_A vm s"
    and w: "w < length (pcs s)" and nd: "pcs s ! w \<noteq> PC_done"
  shows "remaining_work vm (exec vm w (pcs s ! w) s) < remaining_work vm s"
proof (cases "pcs s ! w")
  case PC_done
  then show ?thesis using nd by simp
next
  case (PC_cc_unload ms)
  then show ?thesis
    by (cases ms) (auto intro!: remaining_work_goto [OF w])
next
  case PC_cc_work
  show ?thesis
  proof (cases "first_nmethod s")
    case None
    then show ?thesis using PC_cc_work by (auto intro!: remaining_work_goto [OF w])
  next
    case (Some m)
    have "remaining_work vm (goto w PC_cc_claim
            (emit w (Nmethod_do_unloading m (unloading_occurred s))
               (emit w (Call CodeCacheUnloading) s)\<lparr>first_nmethod := None\<rparr>))
          < remaining_work vm s"
      using PC_cc_work by (auto intro!: remaining_work_goto [OF w])
    moreover have "remaining_work vm (goto w PC_cc_claim (emit w (Call CodeCacheUnloading) s))
          < remaining_work vm s"
      using PC_cc_work by (auto intro!: remaining_work_goto [OF w])
    ultimately show ?thesis using PC_cc_work Some by (cases "w = 0") simp_all
  qed
next
  case PC_cc_claim
  obtain b l where bl: "claim_walk vm (claimed_nmethod s) = (b, l)" by force
  then show ?thesis using PC_cc_claim
    by (auto intro!: remaining_work_goto [OF w])
next
  case (PC_cc_cmpxchg f b l)
  then have f: "valid_cursor vm f" and bl: "claim_walk vm f = (b, l)"
    using A w by (auto simp: cc_inv_A_def)
  note ph = phi_step [OF d f bl]
  show ?thesis
  proof (cases "claimed_nmethod s = f")
    case False
    then show ?thesis using PC_cc_cmpxchg
      by (auto simp: cmpxchg_def intro!: remaining_work_goto [OF w])
  next
    case True
    show ?thesis
    proof (cases "b = []")
      case e: True
      show ?thesis using PC_cc_cmpxchg True e ph
        by (auto simp: cmpxchg_def intro!: remaining_work_goto [OF w])
    next
      case ne: False
      then have "0 < length b" by simp
      then show ?thesis using PC_cc_cmpxchg True ne ph
        by (auto simp: cmpxchg_def intro!: remaining_work_goto [OF w])
    qed
  qed
next
  case PC_claim_next_klass
  then show ?thesis
    by (cases "klass_iterator s") (auto intro!: remaining_work_goto [OF w])
qed (auto simp: cmpxchg_def intro!: remaining_work_goto [OF w])

section \<open>Every interleaving comes to an end\<close>

lemma cc_inv_A_step:
  "distinct (alive_nmethods vm) \<Longrightarrow> cc_inv_A vm s \<Longrightarrow> cc_inv_A vm (step vm w s)"
  by (simp add: step_def cc_inv_A_exec)

lemma busy_bound:
  "distinct (alive_nmethods vm) \<Longrightarrow> cc_inv_A vm s \<Longrightarrow>
     busy vm sched s + remaining_work vm (run vm sched s) \<le> remaining_work vm s"
proof (induction sched arbitrary: s)
  case Nil
  then show ?case by (simp add: run_def)
next
  case (Cons w sched)
  have inv': "cc_inv_A vm (step vm w s)" using Cons.prems by (rule cc_inv_A_step)
  have run: "run vm (w # sched) s = run vm sched (step vm w s)" by (simp add: run_def)
  note IH = Cons.IH [OF Cons.prems(1) inv']
  show ?case
  proof (cases "w < length (pcs s) \<and> pcs s ! w \<noteq> PC_done")
    case True
    then have "remaining_work vm (step vm w s) < remaining_work vm s"
      using remaining_work_decreases [OF Cons.prems] by (simp add: step_def)
    then show ?thesis using IH True run by simp
  next
    case False
    then have "step vm w s = s" by (auto simp: step_def)
    then show ?thesis using IH False run by auto
  qed
qed

lemma completion_exists:
  "distinct (alive_nmethods vm) \<Longrightarrow> cc_inv_A vm s \<Longrightarrow> \<exists>sched. all_done (run vm sched s)"
proof (induction "remaining_work vm s" arbitrary: s rule: less_induct)
  case less
  show ?case
  proof (cases "all_done s")
    case True
    then have "all_done (run vm [] s)" by (simp add: run_def)
    then show ?thesis by blast
  next
    case False
    then obtain w where w: "w < length (pcs s)" "pcs s ! w \<noteq> PC_done"
      by (auto simp: all_done_def in_set_conv_nth)
    have lt: "remaining_work vm (step vm w s) < remaining_work vm s"
      using remaining_work_decreases [OF less.prems w] w by (simp add: step_def)
    have inv': "cc_inv_A vm (step vm w s)" using less.prems by (rule cc_inv_A_step)
    from less.hyps [OF lt less.prems(1) inv'] obtain sched
      where "all_done (run vm sched (step vm w s))" by blast
    then have "all_done (run vm (w # sched) s)" by (simp add: run_def)
    then show ?thesis by blast
  qed
qed

text \<open>
  C5. Without unloading no worker enters \<open>KlassCleaningTask::work\<close>: the subclass tree
  claim is never attempted (the flag stays 0), \<open>clean_subklass_tree\<close> is never called and no
  class is taken from the iterator or cleaned. With unloading, once all workers are done
  the subclass tree has been cleaned exactly once, the class iterator is exhausted and
  exactly the instance classes have been claimed and cleaned. The workers do get done:
  from every state of every interleaving some continuation finishes all of them, and no
  interleaving has more steps of unfinished workers than \<open>remaining_work\<close> allows at the
  start (for distinct alive nmethods).
\<close>

theorem conditional_klass_cleaning:
  assumes "s = run vm sched (ParallelCleaningTask_ctor vm n u r)"
  shows "(\<not> u \<longrightarrow>
            klass_events s = [] \<and> clean_klass_tree_claimed s = 0
            \<and> klass_iterator s = loaded_klasses vm
            \<and> list_all (\<lambda>p. \<not> in_klass_work p) (pcs s))
    \<and> (u \<and> 0 < n \<and> all_done s \<longrightarrow>
            tree_cleanings s = [()] \<and> klass_iterator s = []
            \<and> claimed_klasses s = filter is_instance_klass (loaded_klasses vm)
            \<and> mset (cleaned_klasses s) = mset (filter is_instance_klass (loaded_klasses vm)))
    \<and> (distinct (alive_nmethods vm) \<longrightarrow>
            (\<exists>rest. all_done (run vm rest s))
            \<and> busy vm sched (ParallelCleaningTask_ctor vm n u r)
                 \<le> remaining_work vm (ParallelCleaningTask_ctor vm n u r))"
proof -
  have K: "klass_inv vm s" using assms by (simp add: klass_inv_run)
  have len: "length (pcs s) = n" and uo: "unloading_occurred s = u" using assms by simp_all
  have 1: "\<not> u \<longrightarrow>
            klass_events s = [] \<and> clean_klass_tree_claimed s = 0
            \<and> klass_iterator s = loaded_klasses vm
            \<and> list_all (\<lambda>p. \<not> in_klass_work p) (pcs s)"
    using K uo by (auto simp: klass_inv_def klass_inv_0_def list_all_length)
  have 2: "tree_cleanings s = [()] \<and> klass_iterator s = []
            \<and> claimed_klasses s = filter is_instance_klass (loaded_klasses vm)
            \<and> mset (cleaned_klasses s) = mset (filter is_instance_klass (loaded_klasses vm))"
    if h: "u \<and> 0 < n \<and> all_done s"
  proof -
    have d0: "pcs s ! 0 = PC_done" using h len by (simp add: all_done_nth)
    have it: "klass_iterator s = []"
      using K h uo len d0 by (auto simp: klass_inv_def klass_inv_L3_def)
    have cl: "claimed_klasses s = filter is_instance_klass (loaded_klasses vm)"
      using K it by (simp add: klass_inv_def klass_inv_L1_def)
    have "\<forall>i < length (pcs s). pending_klass (pcs s ! i) = []"
      using h by (simp add: all_done_nth)
    then have "held pending_klass s = {#}" by (rule held_zero)
    then have ms: "mset (cleaned_klasses s) = mset (filter is_instance_klass (loaded_klasses vm))"
      using K cl by (simp add: klass_inv_def klass_inv_L2_def)
    have "length (tree_claims s) = n"
      using K h uo len all_done_filter [of s tree_claim_returned]
      by (simp add: klass_inv_def tree_inv_N_def)
    then have "tree_claims s \<noteq> []" using h by auto
    then have one: "count_list (tree_claims s) True = 1"
      using K by (auto simp: klass_inv_def gate_inv_def)
    have "\<forall>i < length (pcs s). \<not> (pcs s ! i = PC_clean_subklass_tree)"
      using h by (simp add: all_done_nth)
    then have "length (filter (\<lambda>p. p = PC_clean_subklass_tree) (pcs s)) = 0"
      by (rule filter_none)
    then have "length (tree_cleanings s) = 1"
      using K one by (simp add: klass_inv_def tree_inv_U_def)
    then have "tree_cleanings s = [()]" by (cases "tree_cleanings s") auto
    then show ?thesis using it cl ms by simp
  qed
  have 3: "(\<exists>rest. all_done (run vm rest s))
            \<and> busy vm sched (ParallelCleaningTask_ctor vm n u r)
                 \<le> remaining_work vm (ParallelCleaningTask_ctor vm n u r)"
    if d: "distinct (alive_nmethods vm)"
  proof -
    have "cc_inv_A vm s" using assms d cc_inv_run [OF d] by (simp add: cc_inv_def)
    then have a: "\<exists>rest. all_done (run vm rest s)" using d by (simp add: completion_exists)
    have "busy vm sched (ParallelCleaningTask_ctor vm n u r)
            + remaining_work vm (run vm sched (ParallelCleaningTask_ctor vm n u r))
          \<le> remaining_work vm (ParallelCleaningTask_ctor vm n u r)"
      using d by (intro busy_bound cc_inv_A_init)
    then show ?thesis using a by simp
  qed
  show ?thesis using 1 2 3 by blast
qed

theorem conditional_klass_cleaning_witness:
  "klass_events pass2 = [] \<and> clean_klass_tree_claimed pass2 = 0
   \<and> klass_iterator pass2 = loaded_klasses vm2
   \<and> all_done pass1 \<and> tree_cleanings pass1 = [()] \<and> klass_iterator pass1 = []
   \<and> mset (cleaned_klasses pass1) = mset (filter is_instance_klass (loaded_klasses vm1))
   \<and> distinct (alive_nmethods vm1)
   \<and> busy vm1 sched1 (ParallelCleaningTask_ctor vm1 2 True False)
        \<le> remaining_work vm1 (ParallelCleaningTask_ctor vm1 2 True False)"
proof -
  have h1: "all_done pass1" by code_simp
  have h2: "distinct (alive_nmethods vm1)" by (simp add: vm1_def)
  have h3: "(0::nat) < 2" by simp
  note a = conditional_klass_cleaning [OF pass1_def]
  note b = conditional_klass_cleaning [OF pass2_def]
  have c1: "klass_events pass2 = [] \<and> clean_klass_tree_claimed pass2 = 0
     \<and> klass_iterator pass2 = loaded_klasses vm2"
    using b by simp
  have c2: "tree_cleanings pass1 = [()] \<and> klass_iterator pass1 = []
     \<and> mset (cleaned_klasses pass1) = mset (filter is_instance_klass (loaded_klasses vm1))"
    using a h1 h3 by simp
  have c3: "busy vm1 sched1 (ParallelCleaningTask_ctor vm1 2 True False)
        \<le> remaining_work vm1 (ParallelCleaningTask_ctor vm1 2 True False)"
    using a h2 by simp
  show ?thesis using h1 h2 c1 c2 c3 by simp
qed

text \<open>
  C6. Every class \<open>claim_next_klass\<close> returns is an instance class and every class cleaned
  is one; the classes returned so far, in order, followed by the instance classes still in
  the iterator are the instance classes of the registry: classes of other kinds are pulled
  and skipped. With unloading, once all workers are done every instance class of the
  registry has been returned, exactly once when the registry lists every class once.
\<close>

theorem claim_next_klass_filter:
  assumes "s = run vm sched (ParallelCleaningTask_ctor vm n u r)"
  shows "list_all is_instance_klass (claimed_klasses s)
    \<and> list_all is_instance_klass (cleaned_klasses s)
    \<and> claimed_klasses s @ filter is_instance_klass (klass_iterator s)
         = filter is_instance_klass (loaded_klasses vm)
    \<and> (u \<and> 0 < n \<and> all_done s \<longrightarrow>
          claimed_klasses s = filter is_instance_klass (loaded_klasses vm))
    \<and> (u \<and> 0 < n \<and> all_done s \<and> distinct (loaded_klasses vm) \<longrightarrow>
          (\<forall>k. count_list (claimed_klasses s) k
                 = (if k \<in> set (loaded_klasses vm) \<and> is_instance_klass k then 1 else 0)))"
proof -
  have K: "klass_inv vm s" using assms by (simp add: klass_inv_run)
  have len: "length (pcs s) = n" and uo: "unloading_occurred s = u" using assms by simp_all
  have 3: "claimed_klasses s @ filter is_instance_klass (klass_iterator s)
         = filter is_instance_klass (loaded_klasses vm)"
    using K by (simp add: klass_inv_def klass_inv_L1_def)
  have "set (claimed_klasses s) \<subseteq> set (filter is_instance_klass (loaded_klasses vm))"
    using 3 by (metis set_append Un_upper1)
  then have 1: "list_all is_instance_klass (claimed_klasses s)"
    by (auto simp: list_all_iff)
  have "mset (cleaned_klasses s) \<subseteq># mset (claimed_klasses s)"
    using K by (metis klass_inv_def klass_inv_L2_def mset_subset_eq_add_left)
  then have "set (cleaned_klasses s) \<subseteq> set (claimed_klasses s)"
    by (metis set_mset_mono set_mset_mset)
  then have 2: "list_all is_instance_klass (cleaned_klasses s)"
    using 1 by (auto simp: list_all_iff)
  have 4: "claimed_klasses s = filter is_instance_klass (loaded_klasses vm)"
    if h: "u \<and> 0 < n \<and> all_done s"
  proof -
    have "pcs s ! 0 = PC_done" using h len by (simp add: all_done_nth)
    then have "klass_iterator s = []"
      using K h uo len by (auto simp: klass_inv_def klass_inv_L3_def)
    then show ?thesis using 3 by simp
  qed
  have 5: "\<forall>k. count_list (claimed_klasses s) k
                 = (if k \<in> set (loaded_klasses vm) \<and> is_instance_klass k then 1 else 0)"
    if h: "u \<and> 0 < n \<and> all_done s \<and> distinct (loaded_klasses vm)"
  proof
    fix k
    have d: "distinct (claimed_klasses s)" using 4 h by simp
    have "count_list (claimed_klasses s) k = count (mset (claimed_klasses s)) k"
      by (simp add: count_mset)
    also have "\<dots> = (if k \<in> set (claimed_klasses s) then 1 else 0)"
      using d by (simp add: distinct_count_atmost_1)
    finally show "count_list (claimed_klasses s) k
                 = (if k \<in> set (loaded_klasses vm) \<and> is_instance_klass k then 1 else 0)"
      using 4 h by simp
  qed
  show ?thesis using 1 2 3 4 5 by blast
qed

theorem claim_next_klass_filter_witness:
  "all_done pass1 \<and> distinct (loaded_klasses vm1)
   \<and> claimed_klasses pass1 = [InstanceKlass 1, InstanceKlass 3]
   \<and> claimed_klasses pass1 = filter is_instance_klass (loaded_klasses vm1)
   \<and> count_list (claimed_klasses pass1) (InstanceKlass 3) = 1
   \<and> count_list (claimed_klasses pass1) (ArrayKlass 2) = 0"
proof -
  have h1: "all_done pass1" by code_simp
  have h2: "distinct (loaded_klasses vm1)" by (simp add: vm1_def)
  have h3: "True \<and> (0::nat) < 2 \<and> all_done pass1 \<and> distinct (loaded_klasses vm1)"
    using h1 h2 by simp
  have h4: "filter is_instance_klass (loaded_klasses vm1) = [InstanceKlass 1, InstanceKlass 3]"
    by (simp add: vm1_def)
  note a = claim_next_klass_filter [OF pass1_def]
  have c1: "claimed_klasses pass1 = filter is_instance_klass (loaded_klasses vm1)"
    using a h3 by blast
  have c2: "\<forall>k. count_list (claimed_klasses pass1) k
                 = (if k \<in> set (loaded_klasses vm1) \<and> is_instance_klass k then 1 else 0)"
    using a h3 by blast
  have c3: "count_list (claimed_klasses pass1) (InstanceKlass 3) = 1"
    using c2 by (simp add: vm1_def)
  have c4: "count_list (claimed_klasses pass1) (ArrayKlass 2) = 0"
    using c2 by (simp add: vm1_def)
  show ?thesis using h1 h2 h4 c1 c3 c4 by simp
qed

section \<open>The order of the sub-tasks\<close>

lemma order_inv_exec:
  assumes J: "jvmci_inv_0 vm s" and K: "klass_inv_0 vm s"
    and inv: "order_inv vm s i" and w: "w < length (pcs s)" and i: "i < length (pcs s)"
  shows "order_inv vm (exec vm w (pcs s ! w) s) i"
proof (cases "w = i")
  case False
  show ?thesis
  proof (cases "pcs s ! w")
    case (PC_cc_unload ms)
    then show ?thesis using inv w i False
      by (cases ms) (simp_all add: order_inv_def calls_of_def)
  next
    case PC_cc_work
    then show ?thesis using inv w i False
      by (cases "w = 0"; cases "first_nmethod s") (simp_all add: order_inv_def calls_of_def)
  qed (use inv w i False in \<open>simp_all add: order_inv_def calls_of_def cmpxchg_def
         split: option.splits list.splits prod.splits\<close>)
next
  case True
  have inc: "pcs s ! w = PC_jvmci_work \<Longrightarrow> INCLUDE_JVMCI vm"
    using J w by (auto simp: jvmci_inv_0_def)
  have kl: "in_klass_work (pcs s ! w) \<Longrightarrow> unloading_occurred s"
    using K w by (auto simp: klass_inv_0_def)
  show ?thesis
  proof (cases "pcs s ! w")
    case (PC_cc_unload ms)
    then show ?thesis using inv w True
      by (cases ms) (auto simp: order_inv_def calls_of_def sorted_append)
  next
    case PC_cc_work
    then show ?thesis using inv w True
      by (cases "w = 0"; cases "first_nmethod s")
         (auto simp: order_inv_def calls_of_def sorted_append)
  next
    case PC_jvmci_work
    then show ?thesis using inv w True inc
      by (auto simp: order_inv_def calls_of_def sorted_append jvmci_call_def)
  next
    case PC_claim_next_klass
    then show ?thesis using inv w True kl
      by (cases "klass_iterator s")
         (auto simp: order_inv_def calls_of_def sorted_append work_order_def)
  next
    case PC_klass_work
    then show ?thesis using inv w True
      by (auto simp: order_inv_def calls_of_def sorted_append work_order_def)
  qed (use inv w True in \<open>auto simp: order_inv_def calls_of_def cmpxchg_def sorted_append
         split: option.splits list.splits prod.splits\<close>)
qed

lemma order_inv_run:
  assumes "i < n"
  shows "order_inv vm (run vm sched (ParallelCleaningTask_ctor vm n u r)) i"
proof -
  let ?P = "\<lambda>s. jvmci_inv vm s \<and> klass_inv vm s \<and> length (pcs s) = n \<and> order_inv vm s i"
  have "?P (run vm sched (ParallelCleaningTask_ctor vm n u r))"
  proof (rule run_invariant)
    have "order_inv vm (ParallelCleaningTask_ctor vm n u r) i"
      using assms by (simp add: order_inv_def calls_of_def work_entry_def jvmci_call_def)
    then show "?P (ParallelCleaningTask_ctor vm n u r)"
      using jvmci_inv_run [of vm "[]" n u r] klass_inv_run [of vm "[]" n u r]
      by (simp add: run_def)
  next
    fix s w
    assume P: "?P s" and w: "w < length (pcs s)"
    then have "order_inv vm (exec vm w (pcs s ! w) s) i"
      using assms by (intro order_inv_exec) (simp_all add: jvmci_inv_def klass_inv_def)
    moreover have "jvmci_inv vm (exec vm w (pcs s ! w) s)"
      using P w by (simp add: jvmci_inv_def jvmci_gate_exec jvmci_inv_0_exec jvmci_inv_N_exec
          jvmci_inv_U_exec jvmci_inv_W_exec)
    moreover have "klass_inv vm (exec vm w (pcs s ! w) s)"
      using P w by (simp add: klass_inv_def tree_gate_exec tree_inv_N_exec tree_inv_U_exec
          klass_inv_0_exec klass_inv_L1_exec klass_inv_L2_exec klass_inv_L3_exec)
    ultimately show "?P (exec vm w (pcs s ! w) s)" using P by simp
  qed
  then show ?thesis by simp
qed

lemma calls_before_prefix:
  "u \<or> \<not> in_klass_work p \<Longrightarrow> \<exists>k. calls_before vm u p = take k (work_order vm u)"
proof (cases p)
  case PC_jvmci_work
  then show ?thesis by (auto intro: exI [of _ 0])
next
  case PC_done
  then show ?thesis by (auto intro: exI [of _ "length (work_order vm u)"])
qed (auto simp: work_order_def jvmci_call_def
       intro: exI [of _ 0] exI [of _ 1] exI [of _ 2] exI [of _ 3] exI [of _ 4])

text \<open>
  C4. In every interleaving and for every worker, the sub-tasks called so far are an
  initial part of: the JVMCI cleaning (the call is a statement under \<open>JVMCI_ONLY\<close>: where
  JVMCI is not compiled in, this first step is empty), the code cache unloading, the
  string deduplication cleaning, the klass cleaning (only if unloading occurred); all of
  them once the worker is done. Everything a worker does inside one sub-task comes
  after all it did in the sub-tasks before; without unloading it does nothing of klass
  cleaning.
\<close>

theorem work_order_of_subtasks:
  assumes "s = run vm sched (ParallelCleaningTask_ctor vm n u r)" and "i < n"
  shows "(\<exists>k. calls_of i s = take k (work_order vm u))
    \<and> (pcs s ! i = PC_done \<longrightarrow> calls_of i s = work_order vm u)
    \<and> (INCLUDE_JVMCI vm \<and> pcs s ! i = PC_done \<longrightarrow>
          calls_of i s = [JVMCICleaning, CodeCacheUnloading, StringDedupCleaning]
                           @ (if u then [KlassCleaning] else []))
    \<and> sorted (map phase (events_of i s))
    \<and> (\<not> u \<longrightarrow> KlassCleaning \<notin> set (calls_of i s) \<and> (\<forall>e \<in> set (events_of i s). phase e \<noteq> 4))"
proof -
  have O: "order_inv vm s i" using assms by (simp add: order_inv_run)
  have K: "klass_inv vm s" using assms by (simp add: klass_inv_run)
  have len: "length (pcs s) = n" and uo: "unloading_occurred s = u" using assms by simp_all
  have c: "calls_of i s = calls_before vm u (pcs s ! i)" using O uo by (simp add: order_inv_def)
  have nk: "u \<or> \<not> in_klass_work (pcs s ! i)"
    using K uo len assms(2) by (auto simp: klass_inv_def klass_inv_0_def)
  have 1: "\<exists>k. calls_of i s = take k (work_order vm u)"
    using c calls_before_prefix [OF nk] by simp
  have 2: "pcs s ! i = PC_done \<longrightarrow> calls_of i s = work_order vm u" using c by simp
  have 5: "INCLUDE_JVMCI vm \<and> pcs s ! i = PC_done \<longrightarrow>
          calls_of i s = [JVMCICleaning, CodeCacheUnloading, StringDedupCleaning]
                           @ (if u then [KlassCleaning] else [])"
    using 2 by (simp add: work_order_def jvmci_call_def)
  have 3: "sorted (map phase (events_of i s))" using O by (simp add: order_inv_def)
  have 4: "KlassCleaning \<notin> set (calls_of i s) \<and> (\<forall>e \<in> set (events_of i s). phase e \<noteq> 4)"
    if "\<not> u"
  proof -
    have "set (calls_of i s) \<subseteq> set (work_order vm u)"
      using 1 by (metis set_take_subset)
    then have a: "KlassCleaning \<notin> set (calls_of i s)"
      using that by (auto simp: work_order_def jvmci_call_def split: if_splits)
    have "klass_events s = []" using K uo that by (simp add: klass_inv_def klass_inv_0_def)
    then have "\<forall>e \<in> set (events s). phase e \<noteq> 4"
      by (auto simp: klass_events_def filter_empty_conv)
    moreover have "set (events_of i s) \<subseteq> set (events s)"
      by (auto simp: events_of_def events_def)
    ultimately show ?thesis using a by blast
  qed
  show ?thesis using 1 2 3 4 5 by blast
qed

theorem work_order_of_subtasks_witness:
  "pcs pass1 ! 0 = PC_done
   \<and> calls_of 0 pass1 = [JVMCICleaning, CodeCacheUnloading, StringDedupCleaning, KlassCleaning]
   \<and> sorted (map phase (events_of 0 pass1))
   \<and> pcs pass2 ! 1 = PC_done
   \<and> calls_of 1 pass2 = [JVMCICleaning, CodeCacheUnloading, StringDedupCleaning]
   \<and> KlassCleaning \<notin> set (calls_of 1 pass2)"
proof -
  have h1: "pcs pass1 ! 0 = PC_done" by code_simp
  have h2: "pcs pass2 ! 1 = PC_done" by code_simp
  have h3: "(0::nat) < 2" "(1::nat) < 2" by simp_all
  have w1: "work_order vm1 True = [JVMCICleaning, CodeCacheUnloading, StringDedupCleaning, KlassCleaning]"
    by (simp add: work_order_def jvmci_call_def vm1_def)
  have w2: "work_order vm2 False = [JVMCICleaning, CodeCacheUnloading, StringDedupCleaning]"
    by (simp add: work_order_def jvmci_call_def vm2_def)
  note a = work_order_of_subtasks [OF pass1_def h3(1)]
  note b = work_order_of_subtasks [OF pass2_def h3(2)]
  have c1: "calls_of 0 pass1 = work_order vm1 True" using a h1 by blast
  have c2: "sorted (map phase (events_of 0 pass1))" using a by blast
  have c3: "calls_of 1 pass2 = work_order vm2 False" using b h2 by blast
  have c4: "KlassCleaning \<notin> set (calls_of 1 pass2)" using b by blast
  show ?thesis using h1 h2 c1 c2 c3 c4 w1 w2 by simp
qed

section \<open>What each worker unloads\<close>

lemma with_flag_simps [simp]:
  "with_flag u [] = []"
  "with_flag u (m # ms) = (m, u) # with_flag u ms"
  "with_flag u (xs @ ys) = with_flag u xs @ with_flag u ys"
  by (simp_all add: with_flag_def)

lemma worker_inv_exec:
  assumes S: "cc_inv_S vm s" and inv: "worker_inv vm s i"
    and w: "w < length (pcs s)" and i: "i < length (pcs s)"
  shows "worker_inv vm (exec vm w (pcs s ! w) s) i"
proof (cases "w = i")
  case False
  show ?thesis
  proof (cases "pcs s ! w")
    case (PC_cc_unload ms)
    then show ?thesis using inv w i False
      by (cases ms) (simp_all add: worker_inv_def unloads_of_def batches_of_def)
  next
    case PC_cc_work
    then show ?thesis using inv w i False
      by (cases "w = 0"; cases "first_nmethod s")
         (simp_all add: worker_inv_def unloads_of_def batches_of_def)
  qed (use inv w i False in \<open>auto simp: worker_inv_def unloads_of_def batches_of_def cmpxchg_def
         split: option.splits list.splits prod.splits\<close>)
next
  case True
  show ?thesis
  proof (cases "pcs s ! w")
    case (PC_cc_unload ms)
    then show ?thesis using inv w True
      by (cases ms) (auto simp: worker_inv_def unloads_of_def batches_of_def sentinel_of_def)
  next
    case PC_cc_work
    have fa: "first_nmethod s = (if w = 0 then first_alive (alive_nmethods vm) else first_nmethod s)"
      using S w PC_cc_work by (auto simp: cc_inv_S_def)
    show ?thesis
    proof (cases "first_nmethod s")
      case None
      have "sentinel vm = []" if "w = 0"
      proof -
        have "first_alive (alive_nmethods vm) = None" using fa that None by simp
        then show ?thesis by (simp add: sentinel_def)
      qed
      then show ?thesis using inv w True PC_cc_work None
        by (auto simp: worker_inv_def unloads_of_def batches_of_def sentinel_of_def)
    next
      case (Some m)
      have "sentinel vm = [m]" if "w = 0"
      proof -
        have "first_alive (alive_nmethods vm) = Some m" using fa that Some by simp
        then show ?thesis by (simp add: sentinel_def)
      qed
      then show ?thesis using inv w True PC_cc_work Some
        by (auto simp: worker_inv_def unloads_of_def batches_of_def sentinel_of_def)
    qed
  next
    case (PC_cc_cmpxchg f b l)
    then show ?thesis using inv w True
      by (auto simp: worker_inv_def unloads_of_def batches_of_def sentinel_of_def cmpxchg_def
            butlast_append)
  next
    case PC_claim_next_klass
    then show ?thesis using inv w True
      by (cases "klass_iterator s")
         (auto simp: worker_inv_def unloads_of_def batches_of_def sentinel_of_def)
  qed (use inv w True in \<open>auto simp: worker_inv_def unloads_of_def batches_of_def sentinel_of_def
         cmpxchg_def split: option.splits list.splits prod.splits\<close>)
qed

lemma worker_inv_run:
  assumes "i < n"
  shows "worker_inv vm (run vm sched (ParallelCleaningTask_ctor vm n u r)) i"
proof -
  let ?P = "\<lambda>s. cc_inv_S vm s \<and> length (pcs s) = n \<and> worker_inv vm s i"
  have "?P (run vm sched (ParallelCleaningTask_ctor vm n u r))"
  proof (rule run_invariant)
    have "worker_inv vm (ParallelCleaningTask_ctor vm n u r) i"
      using assms
      by (simp add: worker_inv_def unloads_of_def batches_of_def sentinel_of_def work_entry_def)
    then show "?P (ParallelCleaningTask_ctor vm n u r)" by (simp add: cc_inv_S_init)
  next
    fix s w
    assume P: "?P s" and w: "w < length (pcs s)"
    then have "worker_inv vm (exec vm w (pcs s ! w) s) i"
      using assms by (intro worker_inv_exec) simp_all
    then show "?P (exec vm w (pcs s ! w) s)" using P w by (simp add: cc_inv_S_exec)
  qed
  then show ?thesis by simp
qed

text \<open>
  C7. The constructor stores the first alive nmethod in \<open>_first_nmethod\<close> and in
  \<open>_claimed_nmethod\<close>, before any worker has acted. In every interleaving, what a worker
  has unloaded so far, followed by what it still holds of its last batch, is: the sentinel
  (for worker 0 only, once it has entered the loop), then the batches \<open>claim_nmethods\<close>
  returned to it, in order, each nmethod with \<open>unloading_occurred\<close>. The sentinel step
  leaves the cursor alone. A worker has returned from \<open>work\<close> exactly when the last batch
  it got is empty, and no batch before was.
\<close>

theorem code_cache_work_loop:
  assumes "s = run vm sched (ParallelCleaningTask_ctor vm n u r)" and "i < n"
  shows "first_nmethod (ParallelCleaningTask_ctor vm n u r) = first_alive (alive_nmethods vm)
    \<and> claimed_nmethod (ParallelCleaningTask_ctor vm n u r) = first_alive (alive_nmethods vm)
    \<and> events_of i (ParallelCleaningTask_ctor vm n u r) = []
    \<and> unloads_of i s @ with_flag u (pending (pcs s ! i))
         = with_flag u ((if i = 0 \<and> cc_started (pcs s ! i) then sentinel vm else [])
                         @ concat (batches_of i s))
    \<and> (\<forall>t. claimed_nmethod (exec vm 0 PC_cc_work t) = claimed_nmethod t)
    \<and> (returned_from_cc (pcs s ! i) \<longrightarrow>
          batches_of i s \<noteq> [] \<and> last (batches_of i s) = [] \<and> [] \<notin> set (butlast (batches_of i s)))
    \<and> (\<not> returned_from_cc (pcs s ! i) \<longrightarrow> [] \<notin> set (batches_of i s))"
proof -
  have W: "worker_inv vm s i" using assms by (simp add: worker_inv_run)
  have uo: "unloading_occurred s = u" using assms by simp
  have 1: "unloads_of i s @ with_flag u (pending (pcs s ! i))
         = with_flag u ((if i = 0 \<and> cc_started (pcs s ! i) then sentinel vm else [])
                         @ concat (batches_of i s))"
    using W uo by (simp add: worker_inv_def sentinel_of_def)
  have 2: "\<forall>t. claimed_nmethod (exec vm 0 PC_cc_work t) = claimed_nmethod t"
    by (simp split: option.splits)
  have 3: "returned_from_cc (pcs s ! i) \<longrightarrow>
          batches_of i s \<noteq> [] \<and> last (batches_of i s) = [] \<and> [] \<notin> set (butlast (batches_of i s))"
    using W by (simp add: worker_inv_def)
  have 4: "\<not> returned_from_cc (pcs s ! i) \<longrightarrow> [] \<notin> set (batches_of i s)"
    using W by (simp add: worker_inv_def)
  show ?thesis using 1 2 3 4 by simp
qed

theorem code_cache_work_loop_witness:
  "first_nmethod (ParallelCleaningTask_ctor vm1 2 True False) = Some 10
   \<and> claimed_nmethod (ParallelCleaningTask_ctor vm1 2 True False) = Some 10
   \<and> returned_from_cc (pcs pass1 ! 0)
   \<and> batches_of 0 pass1 = [[13], []]
   \<and> unloads_of 0 pass1 = [(10, True), (13, True)]
   \<and> unloads_of 0 pass1 = with_flag True (sentinel vm1 @ concat (batches_of 0 pass1))"
proof -
  have h0: "(0::nat) < 2" by simp
  have h1: "returned_from_cc (pcs pass1 ! 0)" by code_simp
  have h2: "batches_of 0 pass1 = [[13], []]" by code_simp
  have h3: "first_alive (alive_nmethods vm1) = Some 10" by (simp add: vm1_def first_alive_def)
  have h4: "cc_started (pcs pass1 ! 0)" using h1 by (cases "pcs pass1 ! 0") simp_all
  have h5: "pending (pcs pass1 ! 0) = []" using h1 by (cases "pcs pass1 ! 0") simp_all
  have h6: "sentinel vm1 = [10]" using h3 by (simp add: sentinel_def)
  note a = code_cache_work_loop [OF pass1_def h0]
  have c1: "unloads_of 0 pass1 = with_flag True (sentinel vm1 @ concat (batches_of 0 pass1))"
    using a h4 h5 by simp
  then have c2: "unloads_of 0 pass1 = [(10, True), (13, True)]"
    using h2 h6 by simp
  have c3: "first_nmethod (ParallelCleaningTask_ctor vm1 2 True False) = Some 10
     \<and> claimed_nmethod (ParallelCleaningTask_ctor vm1 2 True False) = Some 10"
    using a h3 by simp
  show ?thesis using h1 h2 c1 c2 c3 by simp
qed

section \<open>String deduplication\<close>

lemma exec_trace:
  "\<exists>new. trace (exec vm w p s) = trace s @ new \<and> list_all (worker_entry vm) new"
proof (cases p)
  case (PC_cc_unload ms)
  then show ?thesis by (cases ms) simp_all
qed (simp_all add: cmpxchg_def split: option.splits list.splits prod.splits)

lemma dedup_inv_run: "dedup_inv vm r (run vm sched (ParallelCleaningTask_ctor vm n u r))"
proof (rule run_invariant)
  show "dedup_inv vm r (ParallelCleaningTask_ctor vm n u r)"
    by (simp add: dedup_inv_def)
next
  fix s w
  assume "dedup_inv vm r s"
  then obtain rest where rest: "trace s = StringDedupCleaningTask_ctor vm r @ rest"
    "list_all (worker_entry vm) rest"
    by (auto simp: dedup_inv_def)
  obtain new where new: "trace (exec vm w (pcs s ! w) s) = trace s @ new"
    "list_all (worker_entry vm) new"
    using exec_trace by blast
  have "trace (exec vm w (pcs s ! w) s) = StringDedupCleaningTask_ctor vm r @ (rest @ new)"
    using rest new by simp
  moreover have "list_all (worker_entry vm) (rest @ new)" using rest new by simp
  ultimately show "dedup_inv vm r (exec vm w (pcs s ! w) s)"
    unfolding dedup_inv_def by blast
qed

lemma worker_entries_bracket:
  "list_all (worker_entry vm) rest \<Longrightarrow> pick bracket_of (map snd rest) = []"
proof (induction rest)
  case Nil
  then show ?case by simp
next
  case (Cons x rest)
  obtain t e where x: "x = (t, e)" by (cases x)
  show ?case using Cons x by (cases t) simp_all
qed

lemma worker_entries_dedup:
  "\<not> StringDedup_is_enabled vm \<Longrightarrow> list_all (worker_entry vm) rest \<Longrightarrow>
     pick dedup_of (map snd rest) = []"
proof (induction rest)
  case Nil
  then show ?case by simp
next
  case (Cons x rest)
  obtain t e where x: "x = (t, e)" by (cases x)
  show ?case using Cons x by (cases t) simp_all
qed

text \<open>
  C8. With string deduplication disabled, a whole pass (constructor, workers in any
  interleaving, destructor) calls none of \<open>gc_prologue\<close>, \<open>parallel_unlink\<close>, \<open>gc_epilogue\<close>.
  With it enabled, \<open>gc_prologue(resize_table)\<close> is called exactly once, by the constructor
  and before anything else, and \<open>gc_epilogue\<close> exactly once, by the destructor and after
  everything else: the workers call neither.
\<close>

theorem string_dedup_bracket:
  assumes "s = pass vm n u r sched"
  shows "(\<not> StringDedup_is_enabled vm \<longrightarrow> pick dedup_of (events s) = [])
    \<and> (StringDedup_is_enabled vm \<longrightarrow>
          pick bracket_of (events s) = [StringDedup_gc_prologue r, StringDedup_gc_epilogue]
          \<and> trace (ParallelCleaningTask_ctor vm n u r) = [(VMThread, StringDedup_gc_prologue r)]
          \<and> pick bracket_of (events (run vm sched (ParallelCleaningTask_ctor vm n u r)))
               = [StringDedup_gc_prologue r]
          \<and> hd (trace s) = (VMThread, StringDedup_gc_prologue r)
          \<and> last (trace s) = (VMThread, StringDedup_gc_epilogue))"
proof -
  let ?t = "run vm sched (ParallelCleaningTask_ctor vm n u r)"
  obtain rest where rest: "trace ?t = StringDedupCleaningTask_ctor vm r @ rest"
    "list_all (worker_entry vm) rest"
    using dedup_inv_run [of vm r sched n u] by (auto simp: dedup_inv_def)
  have b: "pick bracket_of (map snd rest) = []" using rest(2) by (rule worker_entries_bracket)
  have s: "trace s = trace ?t @ [(VMThread, CodeCache_verify_clean_inline_caches),
                            (VMThread, CodeCache_verify_icholder_relocations)]
             @ (if StringDedup_is_enabled vm then [(VMThread, StringDedup_gc_epilogue)] else [])"
    using assms
    by (simp add: pass_def ParallelCleaningTask_dtor_def StringDedupCleaningTask_dtor_def
          CodeCacheUnloadingTask_dtor_def)
  have 1: "pick dedup_of (events s) = []" if "\<not> StringDedup_is_enabled vm"
    using s rest worker_entries_dedup [OF that rest(2)] that
    by (simp add: events_def StringDedupCleaningTask_ctor_def)
  have 2: "pick bracket_of (events s) = [StringDedup_gc_prologue r, StringDedup_gc_epilogue]
          \<and> trace (ParallelCleaningTask_ctor vm n u r) = [(VMThread, StringDedup_gc_prologue r)]
          \<and> pick bracket_of (events ?t) = [StringDedup_gc_prologue r]
          \<and> hd (trace s) = (VMThread, StringDedup_gc_prologue r)
          \<and> last (trace s) = (VMThread, StringDedup_gc_epilogue)"
    if "StringDedup_is_enabled vm"
    using s rest b that by (simp add: events_def StringDedupCleaningTask_ctor_def)
  show ?thesis using 1 2 by blast
qed

theorem string_dedup_bracket_witness:
  "\<not> StringDedup_is_enabled vm2 \<and> pick dedup_of (events (pass vm2 2 False False sched2)) = []
   \<and> StringDedup_is_enabled vm1
   \<and> pick bracket_of (events (pass vm1 2 True False sched1))
        = [StringDedup_gc_prologue False, StringDedup_gc_epilogue]
   \<and> hd (trace (pass vm1 2 True False sched1)) = (VMThread, StringDedup_gc_prologue False)
   \<and> last (trace (pass vm1 2 True False sched1)) = (VMThread, StringDedup_gc_epilogue)"
proof -
  have h1: "StringDedup_is_enabled vm1" by (simp add: vm1_def)
  have h2: "\<not> StringDedup_is_enabled vm2" by (simp add: vm2_def)
  note a = string_dedup_bracket [OF refl, of vm1 2 True False sched1]
  note b = string_dedup_bracket [OF refl, of vm2 2 False False sched2]
  have c1: "pick dedup_of (events (pass vm2 2 False False sched2)) = []" using b h2 by blast
  have c2: "pick bracket_of (events (pass vm1 2 True False sched1))
        = [StringDedup_gc_prologue False, StringDedup_gc_epilogue]
   \<and> hd (trace (pass vm1 2 True False sched1)) = (VMThread, StringDedup_gc_prologue False)
   \<and> last (trace (pass vm1 2 True False sched1)) = (VMThread, StringDedup_gc_epilogue)"
    using a h1 by blast
  show ?thesis using h1 h2 c1 c2 by simp
qed


section \<open>The lock records\<close>

text \<open>
  C10. After \<open>b.set_obj(o)\<close> the accessor \<open>b.obj()\<close> returns \<open>o\<close> and the embedded lock with
  its displaced header is what it was; after \<open>l.set_displaced_header(h)\<close> the accessor
  \<open>l.displaced_header()\<close> returns \<open>h\<close>.
\<close>

theorem basic_lock_accessors:
  "obj (set_obj ob b) = ob
   \<and> lock (set_obj ob b) = lock b
   \<and> displaced_header (lock (set_obj ob b)) = displaced_header (lock b)
   \<and> displaced_header (set_displaced_header h l) = h"
  by (simp add: obj_def set_obj_def lock_def displaced_header_def set_displaced_header_def)

end
